theory Spec2Isabelle
  imports Main "HOL-Library.Product_Lexorder" "HOL-Library.Multiset"
begin

section \<open>Data model\<close>

text \<open>
  A calendar date is the triple (year, month, day). The lexicographic order on triples
  is the chronological order, so dates compare as the timestamps of the program do.
  The program's date strings ('2010-01-01', the \<open>%Y-%m-%d\<close> form of today) are the
  dates they denote.
\<close>

type_synonym date = "nat \<times> nat \<times> nat"

text \<open>
  A column label as the remote library hands it out. \<open>Numeric n\<close> is the integer \<open>n\<close>
  or its decimal text (433 or '433'); \<open>Text s\<close> is any other label, with its text.
\<close>

datatype label = Numeric int | Text string

text \<open>
  The content of a cell of a frame of the remote source: a value that the source gave, or
  an identifier that the program wrote there.
\<close>

datatype 'v obs = Value 'v | Ident int

text \<open>
  A pandas DataFrame: the column labels, the row labels (the index) and the cells,
  one list per column, each as long as the index. A missing value (NaN) is \<open>None\<close>.
  \<open>name\<close> is the attribute that \<open>ts.name = code\<close> sets on a frame that has no column
  of that label; it is not a column and no later operation reads it.
\<close>

record ('l, 'v) frame =
  columns :: "'l list"
  index :: "date list"
  cells :: "'v option list list"
  name :: "int option"

text \<open>\<open>df.empty\<close>: true when an axis has length 0 (no column, or no row).\<close>

definition df_empty :: "('l, 'v) frame \<Rightarrow> bool" where
  "df_empty df \<longleftrightarrow> columns df = [] \<or> index df = []"

text \<open>\<open>ts[ts.index >= start_date]\<close>: the rows whose label is not before the start date.\<close>

definition filter_from :: "date \<Rightarrow> ('l, 'v) frame \<Rightarrow> ('l, 'v) frame" where
  "filter_from start_date ts =
     ts\<lparr>index := filter (\<lambda>t. start_date \<le> t) (index ts),
        cells := map (\<lambda>col. map snd (filter (\<lambda>(t, v). start_date \<le> t) (zip (index ts) col)))
                     (cells ts)\<rparr>"

text \<open>The exceptions of the program; all of them are subclasses of Python's \<open>Exception\<close>.\<close>

datatype error =
    IndexError
  | ValueError
  | InvalidIndexError
  | FileNotFoundError
  | PermissionError
  | RemoteError string

section \<open>The remote data source\<close>

text \<open>
  The three forms in which the program calls \<open>sgs.get\<close>:
  \<open>sgs.get(chunk, start=start_date)\<close>, \<open>sgs.get(code, start=start_date)\<close> and
  \<open>sgs.get(code)\<close>.
\<close>

datatype request =
    GetBatch "int list" date
  | GetStrict int date
  | GetFull int

text \<open>
  The remote source is a parameter of the model: from its state (of any type \<open>'w\<close>)
  and a request it gives a frame or raises, and moves to a new state. Nothing is assumed
  about it: two equal requests may be answered differently.
\<close>

type_synonym ('w, 'v) remote = "'w \<Rightarrow> request \<Rightarrow> (error + (label, 'v obs) frame) \<times> 'w"

text \<open>What a task does that is visible from outside: remote calls and log lines.\<close>

datatype event =
    Call request
  | LogBatchStart int
  | LogBatchFailure int
  | LogNoneInPeriod int
  | LogFailedPermanently int

text \<open>
  The state of one run of \<open>process_batch_chunk\<close>: its local list \<open>chunk_results\<close>,
  the events so far, and the state of the remote source.
\<close>

record ('w, 'v) task_state =
  chunk_results :: "(label, 'v obs) frame list"
  trace :: "event list"
  world :: "'w"

definition call :: "('w, 'v) remote \<Rightarrow> request \<Rightarrow> ('w, 'v) task_state
    \<Rightarrow> (error + (label, 'v obs) frame) \<times> ('w, 'v) task_state" where
  "call sgs_get req s =
     (case sgs_get (world s) req of
        (r, w') \<Rightarrow> (r, s\<lparr>trace := trace s @ [Call req], world := w'\<rparr>))"

definition print :: "event \<Rightarrow> ('w, 'v) task_state \<Rightarrow> ('w, 'v) task_state" where
  "print ev s = s\<lparr>trace := trace s @ [ev]\<rparr>"

definition append :: "(label, 'v obs) frame \<Rightarrow> ('w, 'v) task_state \<Rightarrow> ('w, 'v) task_state" where
  "append ts s = s\<lparr>chunk_results := chunk_results s @ [ts]\<rparr>"

section \<open>process_batch_chunk\<close>

text \<open>
  \<open>ts.name = code\<close> (lines 61 and 71) on a frame. When the frame has a column labelled
  'name', the assignment goes to that column, and every row of it holds the identifier
  from then on; otherwise it sets an attribute of the object.
\<close>

definition assign_name :: "int \<Rightarrow> (label, 'v obs) frame \<Rightarrow> (label, 'v obs) frame" where
  "assign_name code ts =
     (if Text ''name'' \<in> set (columns ts)
      then ts\<lparr>cells := map (\<lambda>(l, col). if l = Text ''name''
                                         then map (\<lambda>t. Some (Ident code)) (index ts) else col)
                         (zip (columns ts) (cells ts))\<rparr>
      else ts\<lparr>name := Some code\<rparr>)"

text \<open>
  The body of the loop \<open>for code in chunk\<close> (lines 58 to 76). An exception of the first
  call is caught by \<open>except Exception\<close>, one of the second call by the bare \<open>except\<close>.
  The result is \<open>Inl e\<close> when an exception leaves the body.
\<close>

definition individual_recovery :: "('w, 'v) remote \<Rightarrow> date \<Rightarrow> int \<Rightarrow> ('w, 'v) task_state
    \<Rightarrow> (error + unit) \<times> ('w, 'v) task_state" where
  "individual_recovery sgs_get start_date code s =
     (case call sgs_get (GetStrict code start_date) s of
        (Inr ts, s1) \<Rightarrow> (Inr (), append (assign_name code ts) s1)
      | (Inl e, s1) \<Rightarrow>
          (case call sgs_get (GetFull code) s1 of
             (Inr ts, s2) \<Rightarrow>
               (if \<not> df_empty ts then
                  (let ts' = filter_from start_date ts in
                   if \<not> df_empty ts' then (Inr (), append (assign_name code ts') s2)
                   else (Inr (), print (LogNoneInPeriod code) s2))
                else (Inr (), s2))
           | (Inl e', s2) \<Rightarrow> (Inr (), print (LogFailedPermanently code) s2)))"

text \<open>The loop itself: an exception that leaves the body ends the loop.\<close>

fun recovery_loop :: "('w, 'v) remote \<Rightarrow> date \<Rightarrow> int list \<Rightarrow> ('w, 'v) task_state
    \<Rightarrow> (error + unit) \<times> ('w, 'v) task_state" where
  "recovery_loop sgs_get start_date [] s = (Inr (), s)"
| "recovery_loop sgs_get start_date (code # rest) s =
     (case individual_recovery sgs_get start_date code s of
        (Inl e, s') \<Rightarrow> (Inl e, s')
      | (Inr u, s') \<Rightarrow> recovery_loop sgs_get start_date rest s')"

text \<open>
  \<open>process_batch_chunk\<close> (lines 42 to 77). The log line of line 50 reads \<open>chunk[0]\<close>
  inside the \<open>try\<close>; on an empty chunk that raises IndexError, the handler's own log line
  (line 55) reads \<open>chunk[0]\<close> again, and this second IndexError leaves the function.
\<close>

definition process_batch_chunk :: "('w, 'v) remote \<Rightarrow> int list \<Rightarrow> date \<Rightarrow> 'w
    \<Rightarrow> (error + (label, 'v obs) frame list) \<times> ('w, 'v) task_state" where
  "process_batch_chunk sgs_get chunk start_date w =
     (let s0 = \<lparr>chunk_results = [], trace = [], world = w\<rparr> in
      case chunk of
        [] \<Rightarrow> (Inl IndexError, s0)
      | c0 # cs \<Rightarrow>
          (case call sgs_get (GetBatch chunk start_date) (print (LogBatchStart c0) s0) of
             (Inr df_chunk, s1) \<Rightarrow>
               (let s2 = append df_chunk s1 in (Inr (chunk_results s2), s2))
           | (Inl e, s1) \<Rightarrow>
               (case recovery_loop sgs_get start_date chunk (print (LogBatchFailure c0) s1) of
                  (Inl e', s2) \<Rightarrow> (Inl e', s2)
                | (Inr u, s2) \<Rightarrow> (Inr (chunk_results s2), s2))))"

text \<open>
  The outcome of one individual resolution, in the words of the specification, read from
  what the loop body did between the state \<open>s\<close> before it and the state \<open>s'\<close> after it:
  it appended a series, or it logged a permanent failure, or neither.
\<close>

datatype 'v fetch_outcome = Succeeded "(label, 'v obs) frame" | NoDataInPeriod | PermanentlyFailed

definition outcome_of :: "int \<Rightarrow> ('w, 'v) task_state \<Rightarrow> ('w, 'v) task_state \<Rightarrow> 'v fetch_outcome" where
  "outcome_of code s s' =
     (case drop (length (chunk_results s)) (chunk_results s') of
        ts # rest \<Rightarrow> Succeeded ts
      | [] \<Rightarrow>
          if LogFailedPermanently code \<in> set (drop (length (trace s)) (trace s'))
          then PermanentlyFailed else NoDataInPeriod)"

text \<open>The identifiers of the individual strict calls in a trace, in the order made.\<close>

fun strict_attempts :: "event list \<Rightarrow> int list" where
  "strict_attempts [] = []"
| "strict_attempts (Call (GetStrict code d) # evs) = code # strict_attempts evs"
| "strict_attempts (ev # evs) = strict_attempts evs"

text \<open>
  The individual resolutions of a list of identifiers, one after the other: the state
  before and the state after each of them.
\<close>

fun resolutions :: "('w, 'v) remote \<Rightarrow> date \<Rightarrow> int list \<Rightarrow> ('w, 'v) task_state
    \<Rightarrow> (int \<times> ('w, 'v) task_state \<times> ('w, 'v) task_state) list" where
  "resolutions sgs_get start_date [] s = []"
| "resolutions sgs_get start_date (code # rest) s =
     (let s' = snd (individual_recovery sgs_get start_date code s)
      in (code, s, s') # resolutions sgs_get start_date rest s')"

text \<open>The series that a list of resolutions contributes: those of the ones that succeeded.\<close>

fun contribution :: "(int \<times> ('w, 'v) task_state \<times> ('w, 'v) task_state) list \<Rightarrow> (label, 'v obs) frame list" where
  "contribution [] = []"
| "contribution ((code, s, s') # rs) =
     (case outcome_of code s s' of
        Succeeded ts \<Rightarrow> ts # contribution rs
      | NoDataInPeriod \<Rightarrow> contribution rs
      | PermanentlyFailed \<Rightarrow> contribution rs)"

section \<open>The batches of download_series_batch\<close>

definition BATCH_SIZE :: nat where
  "BATCH_SIZE = 10"

text \<open>\<open>sorted(list(set(series_codes)))\<close> (line 93).\<close>

definition sorted_set :: "int list \<Rightarrow> int list" where
  "sorted_set series_codes = sort (remdups series_codes)"

text \<open>\<open>range(0, stop, step)\<close> for a positive step: 0, step, 2 step, ... below stop.\<close>

definition range_step :: "nat \<Rightarrow> nat \<Rightarrow> nat list" where
  "range_step stop step = map (\<lambda>k. k * step) [0..<(stop + step - 1) div step]"

text \<open>The slice \<open>xs[i : j]\<close> for \<open>0 \<le> i \<le> j\<close>; a slice past the end is cut, not an error.\<close>

definition slice :: "'a list \<Rightarrow> nat \<Rightarrow> nat \<Rightarrow> 'a list" where
  "slice xs i j = take (j - i) (drop i xs)"

text \<open>Lines 93 to 99: the list \<open>chunks\<close> that download_series_batch builds from its argument.\<close>

definition chunks :: "int list \<Rightarrow> int list list" where
  "chunks series_codes =
     (let series_codes = sorted_set series_codes;
          n_total = length series_codes
      in map (\<lambda>i. slice series_codes i (i + BATCH_SIZE)) (range_step n_total BATCH_SIZE))"

text \<open>
  Lines 107 to 111: what the collecting loop adds to \<open>results\<close> for one task. The result
  of a task that ended with an exception is logged and adds nothing.
\<close>

definition collect :: "(error + ('l, 'v) frame list) \<Rightarrow> ('l, 'v) frame list" where
  "collect r = (case r of Inr chunk_data \<Rightarrow> chunk_data | Inl e \<Rightarrow> [])"

text \<open>
  The state in which \<open>process_batch_chunk\<close> enters its loop of individual resolutions:
  after the log line of the batch, the combined call and the log line of its failure.
\<close>

definition recovery_start :: "('w, 'v) remote \<Rightarrow> int list \<Rightarrow> date \<Rightarrow> 'w \<Rightarrow> ('w, 'v) task_state" where
  "recovery_start sgs_get chunk start_date w =
     print (LogBatchFailure (hd chunk))
       (snd (call sgs_get (GetBatch chunk start_date)
          (print (LogBatchStart (hd chunk)) \<lparr>chunk_results = [], trace = [], world = w\<rparr>)))"

section \<open>The canonical time axis\<close>

definition START_DATE :: date where
  "START_DATE = (2010, 1, 1)"

text \<open>A date of the calendar, as far as the month arithmetic needs it.\<close>

definition valid_date :: "date \<Rightarrow> bool" where
  "valid_date t \<longleftrightarrow> (case t of (y, m, d) \<Rightarrow> 1 \<le> m \<and> m \<le> 12 \<and> 1 \<le> d \<and> d \<le> 31)"

text \<open>Months counted from January of year 0, and the first day of the month of that number.\<close>

definition month_number :: "date \<Rightarrow> nat" where
  "month_number t = (case t of (y, m, d) \<Rightarrow> y * 12 + (m - 1))"

definition month_start :: "nat \<Rightarrow> date" where
  "month_start k = (k div 12, k mod 12 + 1, 1)"

text \<open>
  Modelled from the spec: \<open>pd.date_range(start=..., end=..., freq='MS')\<close> is library
  code that is not among the sources. The model is the axis builder of the specification
  as the library's documentation has it for the frequency month start: the first days of
  the months that lie in the closed interval from start to end, in order. A start that is
  not the first of a month rolls forward to the next month start.
\<close>

definition date_range_MS :: "date \<Rightarrow> date \<Rightarrow> date list" where
  "date_range_MS start stop =
     (let first = (if snd (snd start) = 1 then month_number start else month_number start + 1)
      in map month_start [first..<month_number stop + 1])"

text \<open>Lines 148 and 149: the master index, from \<open>START_DATE\<close> to today.\<close>

definition master_index :: "date \<Rightarrow> date list" where
  "master_index today = date_range_MS START_DATE today"

section \<open>Consolidation\<close>






text \<open>
  A column moved onto another index: at each new row label the value the column has at
  that label, and a missing value where the old index does not have the label.
\<close>

definition realign :: "date list \<Rightarrow> 'v option list \<Rightarrow> date list \<Rightarrow> 'v option list" where
  "realign old_index col new_index =
     map (\<lambda>t. case map_of (zip old_index col) t of Some v \<Rightarrow> v | None \<Rightarrow> None) new_index"

text \<open>
  Modelled from the spec: \<open>DataFrame.reindex\<close> is library code that is not among the
  sources. As the specification says of the consolidator, row labels present in the frame
  populate values, absent ones become missing values, and rows of the frame outside the
  new index are dropped. The library refuses a frame whose own index has a label twice
  (ValueError), unless the new index is the frame's index, where there is nothing to do.
\<close>

definition reindex :: "('l, 'v) frame \<Rightarrow> date list \<Rightarrow> error + ('l, 'v) frame" where
  "reindex df new_index =
     (if index df = new_index then Inr df
      else if \<not> distinct (index df) then Inl ValueError
      else Inr (df\<lparr>index := new_index,
                    cells := map (\<lambda>col. realign (index df) col new_index) (cells df)\<rparr>))"






text \<open>Lines 186 and 187: the reindexing onto the master index, skipped for an empty table.\<close>

definition reindex_to_master :: "('l, 'v) frame \<Rightarrow> date list \<Rightarrow> error + ('l, 'v) frame" where
  "reindex_to_master df_global_data master =
     (if \<not> df_empty df_global_data then reindex df_global_data master
      else Inr df_global_data)"






section \<open>A concrete remote source\<close>

text \<open>
  A remote source to run the program on. Its state counts the calls made. A combined call
  fails when series 1 is among the identifiers; series 1 answers the strict call; series 2
  answers only the full-history call, with one observation before 2010 and one after;
  series 5 has a history that ends before 2010; every other individual call fails.
\<close>

definition demo_series :: "int \<Rightarrow> date list \<Rightarrow> (label, int obs) frame" where
  "demo_series code idx =
     \<lparr>columns = [Numeric code], index = idx, cells = [map (\<lambda>t. Some (Value code)) idx],
      name = None\<rparr>"

definition demo_remote :: "(nat, int) remote" where
  "demo_remote w req =
     (case req of
        GetBatch ids d \<Rightarrow>
          if 1 \<in> set ids then (Inl (RemoteError ''batch''), Suc w)
          else (Inr \<lparr>columns = map Numeric (remdups ids), index = [(2010, 1, 1), (2010, 2, 1)],
                     cells = map (\<lambda>c. [Some (Value c), Some (Value c)]) (remdups ids),
                     name = None\<rparr>, Suc w)
      | GetStrict code d \<Rightarrow>
          if code = 1 then (Inr (demo_series 1 [(2010, 1, 1), (2010, 2, 1)]), Suc w)
          else (Inl (RemoteError ''strict''), Suc w)
      | GetFull code \<Rightarrow>
          if code = 2 then (Inr (demo_series 2 [(2009, 12, 1), (2010, 3, 1)]), Suc w)
          else if code = 5 then (Inr (demo_series 5 [(2009, 11, 1)]), Suc w)
          else (Inl (RemoteError ''full''), Suc w))"

definition demo_state :: "(nat, int) task_state" where
  "demo_state = \<lparr>chunk_results = [], trace = [], world = 0\<rparr>"








definition demo_aligned :: "(int, int obs) frame" where
  "demo_aligned = \<lparr>columns = [1, 2],
      index = [(2010, 1, 1), (2010, 2, 1), (2010, 3, 1)],
      cells = [[Some (Value 1), Some (Value 1), None], [None, None, Some (Value 2)]],
      name = None\<rparr>"










section \<open>Column letters\<close>

text \<open>
  The spreadsheet library's conversion of a column number into letters (library code that
  is not among the sources; this is its loop): the digits of the bijective base 26
  numeral, least significant first, each \<open>chr(remainder + 64)\<close>, where a remainder 0
  counts as 26 and borrows one from the quotient.
\<close>

function letters_loop :: "nat \<Rightarrow> string \<Rightarrow> string" where
  "letters_loop col_idx letters =
     (if col_idx = 0 then letters
      else if col_idx mod 26 = 0
        then letters_loop (col_idx div 26 - 1) (letters @ [char_of (26 + 64 :: nat)])
        else letters_loop (col_idx div 26) (letters @ [char_of (col_idx mod 26 + 64)]))"
  by pat_completeness auto
termination
  by (relation "measure fst") (auto intro: diff_less_mono2 div_less_dividend less_imp_diff_less)

text \<open>The letters of a column number: the digits, reversed.\<close>

definition column_letter :: "nat \<Rightarrow> string" where
  "column_letter col_idx = rev (letters_loop col_idx [])"

text \<open>
  \<open>get_column_letter\<close>: the library knows the columns 1 to 18278 (A to ZZZ) and raises
  ValueError for any other number.
\<close>

definition get_column_letter :: "nat \<Rightarrow> error + string" where
  "get_column_letter idx =
     (if 1 \<le> idx \<and> idx \<le> 18278 then Inr (column_letter idx) else Inl ValueError)"

text \<open>\<open>str.upper()\<close>; the texts of the model are ASCII, where it changes the letters a to z.\<close>

definition upper :: "string \<Rightarrow> string" where
  "upper s = map (\<lambda>c. if 97 \<le> (of_char c :: nat) \<and> (of_char c :: nat) \<le> 122
                        then char_of ((of_char c :: nat) - 32) else c) s"

text \<open>
  \<open>column_index_from_string\<close>: the number among 1 to 18278 whose letters are the name in
  upper case, and ValueError when the name is not one of A to ZZZ.
\<close>

definition column_index_from_string :: "string \<Rightarrow> error + nat" where
  "column_index_from_string str_col =
     (case find (\<lambda>i. column_letter i = upper str_col) [1..<18279] of
        Some i \<Rightarrow> Inr i
      | None \<Rightarrow> Inl ValueError)"

text \<open>A list of results that may each be an exception: the first exception, or all values.\<close>

fun all_values :: "(error + 'a) list \<Rightarrow> error + 'a list" where
  "all_values [] = Inr []"
| "all_values (Inl e # rs) = Inl e"
| "all_values (Inr v # rs) = (case all_values rs of Inl e \<Rightarrow> Inl e | Inr vs \<Rightarrow> Inr (v # vs))"

text \<open>
  generate_column_range (lines 22 to 36): the letters of the columns 2 to the index of
  \<open>max_col_str\<close>, and the empty list when anything raises.
\<close>

definition generate_column_range :: "string \<Rightarrow> string list" where
  "generate_column_range max_col_str =
     (case column_index_from_string max_col_str of
        Inl e \<Rightarrow> []
      | Inr max_idx \<Rightarrow>
          (case all_values (map get_column_letter [2..<max_idx + 1]) of
             Inl e \<Rightarrow> []
           | Inr cols \<Rightarrow> cols))"

section \<open>The input configuration\<close>

text \<open>
  A cell of the column \<open>Codigo\<close> as read from the input file: missing; a value that
  \<open>pd.to_numeric\<close> reads as a finite number, given by the integer that \<open>astype(int)\<close>
  makes of it; a value that it cannot read, which \<open>errors='coerce'\<close> turns into NaN and
  \<open>fillna(0)\<close> into 0; or an infinite number, on which \<open>astype(int)\<close> raises. A cell of
  \<open>Coluna\<close> or \<open>Aba\<close> is missing or has the text that \<open>astype(str)\<close> gives.
\<close>

datatype codigo_cell = Missing | Number int | Unreadable | Infinite

record raw_row =
  raw_Codigo :: codigo_cell
  raw_Coluna :: "string option"
  raw_Aba :: "string option"

record config_row =
  Codigo_Clean :: int
  Coluna :: string
  Aba :: string

text \<open>\<open>str.strip()\<close>: the white space of ASCII off both ends.\<close>

definition is_space :: "char \<Rightarrow> bool" where
  "is_space c \<longleftrightarrow> c \<in> set [CHR '' '', CHR 0x09, CHR 0x0A, CHR 0x0B, CHR 0x0C, CHR 0x0D,
                              CHR 0x1C, CHR 0x1D, CHR 0x1E, CHR 0x1F]"

definition strip :: "string \<Rightarrow> string" where
  "strip s = rev (dropWhile is_space (rev (dropWhile is_space s)))"

text \<open>\<open>astype(str)\<close> on a cell of text: a missing value becomes the text 'nan'.\<close>

definition as_str :: "string option \<Rightarrow> string" where
  "as_str cell = (case cell of None \<Rightarrow> ''nan'' | Some s \<Rightarrow> s)"

text \<open>
  \<open>pd.to_numeric(..., errors='coerce').fillna(0).astype(int)\<close> on a cell of \<open>Codigo\<close>
  (line 163).
\<close>

fun codigo_clean :: "codigo_cell \<Rightarrow> error + int" where
  "codigo_clean Missing = Inr 0"
| "codigo_clean (Number n) = Inr n"
| "codigo_clean Unreadable = Inr 0"
| "codigo_clean Infinite = Inl ValueError"

text \<open>
  Lines 158 to 164: rows without \<open>Codigo\<close> or \<open>Aba\<close> are dropped, the texts are cleaned,
  the codes are made integers, and the rows whose code is not positive are dropped.
\<close>

definition clean_input :: "raw_row list \<Rightarrow> error + config_row list" where
  "clean_input df_input =
     (let kept = filter (\<lambda>r. raw_Codigo r \<noteq> Missing \<and> raw_Aba r \<noteq> None) df_input in
      case all_values (map (\<lambda>r. codigo_clean (raw_Codigo r)) kept) of
        Inl e \<Rightarrow> Inl e
      | Inr codes \<Rightarrow>
          Inr (filter (\<lambda>r. Codigo_Clean r > 0)
                 (map (\<lambda>(r, code). \<lparr>Codigo_Clean = code,
                                     Coluna = upper (strip (as_str (raw_Coluna r))),
                                     Aba = strip (as_str (raw_Aba r))\<rparr>)
                    (zip kept codes))))"


section \<open>The distribution by sheet\<close>

text \<open>
  Lines 200 to 203, the body of the \<open>try\<close>: the columns of the sheet, or the exception
  upon which the sheet is skipped.
\<close>

definition sheet_columns :: "config_row list \<Rightarrow> error + string list" where
  "sheet_columns df_config =
     (case all_values (map (\<lambda>r. column_index_from_string (Coluna r)) df_config) of
        Inl e \<Rightarrow> Inl e
      | Inr col_indices \<Rightarrow>
          if col_indices = [] then Inl ValueError
          else (case get_column_letter (Max (set col_indices)) of
                  Inl e \<Rightarrow> Inl e
                | Inr max_col_str \<Rightarrow> Inr (generate_column_range max_col_str)))"

text \<open>\<open>pd.DataFrame(index=master_index, columns=target_cols)\<close>: every cell missing.\<close>

definition new_sheet :: "date list \<Rightarrow> string list \<Rightarrow> (string, 'v) frame" where
  "new_sheet master target_cols =
     \<lparr>columns = target_cols, index = master,
      cells = map (\<lambda>c. map (\<lambda>t. None) master) target_cols, name = None\<rparr>"

text \<open>\<open>df[label]\<close>: the columns of the frame that carry the label.\<close>

definition select_column :: "('l, 'v) frame \<Rightarrow> 'l \<Rightarrow> 'v option list list" where
  "select_column df c = map snd (filter (\<lambda>(l, col). l = c) (zip (columns df) (cells df)))"

text \<open>
  The series on the right of \<open>df_sheet[col_dest] = ...\<close> is put onto the index of the
  sheet; the library refuses a series whose own index has a label twice, unless the two
  indexes are the same.
\<close>

definition align_series :: "date list \<Rightarrow> 'v option list \<Rightarrow> date list \<Rightarrow> error + 'v option list" where
  "align_series old_index col new_index =
     (if old_index = new_index then Inr col
      else if \<not> distinct old_index then Inl ValueError
      else Inr (realign old_index col new_index))"

text \<open>\<open>df[label] = values\<close>: the column of that label is replaced, a new label is added last.\<close>

definition set_column :: "('l, 'v) frame \<Rightarrow> 'l \<Rightarrow> 'v option list \<Rightarrow> ('l, 'v) frame" where
  "set_column df c col =
     (if c \<in> set (columns df)
      then df\<lparr>cells := map (\<lambda>(l, old). if l = c then col else old) (zip (columns df) (cells df))\<rparr>
      else df\<lparr>columns := columns df @ [c], cells := cells df @ [col]\<rparr>)"

text \<open>
  The loop of lines 211 to 217. \<open>df_global_data[cod_orig]\<close> is a series when one column
  has the label; with several it is a frame, which cannot be assigned to one column
  (ValueError).
\<close>

fun data_mapping :: "(int, 'v) frame \<Rightarrow> config_row list \<Rightarrow> (string, 'v) frame
    \<Rightarrow> error + (string, 'v) frame" where
  "data_mapping df_global_data [] df_sheet = Inr df_sheet"
| "data_mapping df_global_data (row # rows) df_sheet =
     (if Codigo_Clean row \<in> set (columns df_global_data) then
        (case select_column df_global_data (Codigo_Clean row) of
           [col] \<Rightarrow>
             (case align_series (index df_global_data) col (index df_sheet) of
                Inl e \<Rightarrow> Inl e
              | Inr values \<Rightarrow>
                  data_mapping df_global_data rows (set_column df_sheet (Coluna row) values))
         | cols \<Rightarrow> Inl ValueError)
      else data_mapping df_global_data rows df_sheet)"

text \<open>Lines 196 and 197: the rows of the configuration that name the sheet.\<close>

definition sheet_config :: "config_row list \<Rightarrow> string \<Rightarrow> config_row list" where
  "sheet_config df_input sheet = filter (\<lambda>r. Aba r = sheet) df_input"

text \<open>
  The body of the loop over the sheets (lines 196 to 219): \<open>Inr None\<close> when the column
  structure raises and the sheet is skipped (\<open>continue\<close>), \<open>Inr (Some df_sheet)\<close> when the
  sheet is built, \<open>Inl e\<close> for an exception that leaves the loop.
\<close>

definition build_sheet :: "config_row list \<Rightarrow> (int, 'v) frame \<Rightarrow> date list \<Rightarrow> string
    \<Rightarrow> error + (string, 'v) frame option" where
  "build_sheet df_input df_global_data master sheet =
     (let df_config = sheet_config df_input sheet in
      case sheet_columns df_config of
        Inl e \<Rightarrow> Inr None
      | Inr target_cols \<Rightarrow>
          (case data_mapping df_global_data df_config (new_sheet master target_cols) of
             Inl e \<Rightarrow> Inl e
           | Inr df_sheet \<Rightarrow> Inr (Some df_sheet)))"


section \<open>main\<close>



text \<open>
  The column range in the words of the claim about the distributor: from the lowest to
  the highest configured column.
\<close>

definition lowest_to_highest :: "config_row list \<Rightarrow> error + string list" where
  "lowest_to_highest df_config =
     (case all_values (map (\<lambda>r. column_index_from_string (Coluna r)) df_config) of
        Inl e \<Rightarrow> Inl e
      | Inr col_indices \<Rightarrow>
          if col_indices = [] then Inl ValueError
          else Inr (map column_letter [Min (set col_indices)..<Max (set col_indices) + 1]))"

text \<open>The column of a frame that carries a label.\<close>

definition lookup_column :: "('l, 'v) frame \<Rightarrow> 'l \<Rightarrow> 'v option list option" where
  "lookup_column df c = map_of (zip (columns df) (cells df)) c"

text \<open>
  The last row of a configuration that names a destination column and whose code is a
  column of the consolidated table.
\<close>

definition last_source :: "(int, 'v) frame \<Rightarrow> config_row list \<Rightarrow> string \<Rightarrow> config_row option" where
  "last_source df_global_data df_config c =
     find (\<lambda>r. Coluna r = c \<and> Codigo_Clean r \<in> set (columns df_global_data)) (rev df_config)"

text \<open>
  An input file to run main on: the identifier 1 goes to column D of the sheet S, the
  identifier 7, which the concrete remote source does not have, to column F, and the
  identifier 2 to column A; a row whose code cannot be read and a row without a code
  follow; the sheet T has a column name that is no column. With it the cleaned
  configuration, the consolidated table that the download gives for it (on the axis of
  15 March 2010), and the sheet that the distribution builds.
\<close>

definition demo_raw :: "raw_row list" where
  "demo_raw =
     [\<lparr>raw_Codigo = Number 1, raw_Coluna = Some '' d '', raw_Aba = Some ''S''\<rparr>,
      \<lparr>raw_Codigo = Number 7, raw_Coluna = Some ''F'', raw_Aba = Some ''S ''\<rparr>,
      \<lparr>raw_Codigo = Number 2, raw_Coluna = Some ''a'', raw_Aba = Some ''S''\<rparr>,
      \<lparr>raw_Codigo = Unreadable, raw_Coluna = Some ''C'', raw_Aba = Some ''S''\<rparr>,
      \<lparr>raw_Codigo = Missing, raw_Coluna = Some ''E'', raw_Aba = Some ''S''\<rparr>,
      \<lparr>raw_Codigo = Number 2, raw_Coluna = Some ''5'', raw_Aba = Some ''T''\<rparr>]"

definition demo_config :: "config_row list" where
  "demo_config =
     [\<lparr>Codigo_Clean = 1, Coluna = ''D'', Aba = ''S''\<rparr>,
      \<lparr>Codigo_Clean = 7, Coluna = ''F'', Aba = ''S''\<rparr>,
      \<lparr>Codigo_Clean = 2, Coluna = ''A'', Aba = ''S''\<rparr>,
      \<lparr>Codigo_Clean = 2, Coluna = ''5'', Aba = ''T''\<rparr>]"

definition demo_sheet :: "(string, int obs) frame" where
  "demo_sheet =
     \<lparr>columns = [''B'', ''C'', ''D'', ''E'', ''F'', ''A''],
      index = [(2010, 1, 1), (2010, 2, 1), (2010, 3, 1)],
      cells = [[None, None, None], [None, None, None],
               [Some (Value 1), Some (Value 1), None],
               [None, None, None], [None, None, None],
               [None, None, Some (Value 2)]],
      name = None\<rparr>"

text \<open>
  A configuration whose sheet S has the columns D and F, and the sheet built for it from
  the same consolidated table.
\<close>

definition columns_D_F :: "config_row list" where
  "columns_D_F =
     [\<lparr>Codigo_Clean = 1, Coluna = ''D'', Aba = ''S''\<rparr>,
      \<lparr>Codigo_Clean = 7, Coluna = ''F'', Aba = ''S''\<rparr>]"

definition sheet_B_F :: "(string, int obs) frame" where
  "sheet_B_F =
     \<lparr>columns = [''B'', ''C'', ''D'', ''E'', ''F''],
      index = [(2010, 1, 1), (2010, 2, 1), (2010, 3, 1)],
      cells = [[None, None, None], [None, None, None],
               [Some (Value 1), Some (Value 1), None],
               [None, None, None], [None, None, None]],
      name = None\<rparr>"

text \<open>The value of a numeral of letters, least significant first, and texts in upper case.\<close>

definition digits_value :: "string \<Rightarrow> nat" where
  "digits_value ds = foldr (\<lambda>c a. (of_char c - 64) + 26 * a) ds 0"

definition upper_case :: "string \<Rightarrow> bool" where
  "upper_case s \<longleftrightarrow> list_all (\<lambda>c. 65 \<le> (of_char c :: nat) \<and> (of_char c :: nat) \<le> 90) s"

section \<open>Properties of the batches\<close>

lemma concat_slices:
  "concat (map (\<lambda>k. take b (drop (k * b) xs)) [0..<n]) = take (n * b) xs"
proof (induction n)
  case 0
  show ?case by simp
next
  case (Suc n)
  have "take (n * b) xs @ take b (drop (n * b) xs) = take (n * b + b) xs"
    by (simp add: take_add)
  with Suc show ?case by (simp add: add.commute)
qed

lemma ceil_div_covers:
  assumes "0 < (b::nat)"
  shows "n \<le> ((n + b - 1) div b) * b"
proof -
  have "n + b - 1 < ((n + b - 1) div b) * b + b"
    using assms by (metis add.commute div_mult_mod_eq mod_less_divisor mult.commute nat_add_left_cancel_less)
  then show ?thesis using assms by linarith
qed

lemma ceil_div_tight:
  assumes "0 < (b::nat)" and "k < (n + b - 1) div b"
  shows "k * b < n"
proof -
  have "Suc k \<le> (n + b - 1) div b" using assms(2) by simp
  then have "Suc k * b \<le> ((n + b - 1) div b) * b" by (rule mult_le_mono1)
  also have "\<dots> \<le> n + b - 1" by simp
  finally show ?thesis using assms(1) by simp
qed

lemma chunks_unfold:
  "chunks codes =
     map (\<lambda>k. take BATCH_SIZE (drop (k * BATCH_SIZE) (sorted_set codes)))
       [0..<(length (sorted_set codes) + BATCH_SIZE - 1) div BATCH_SIZE]"
  by (simp add: chunks_def Let_def range_step_def slice_def comp_def)

lemma concat_chunks: "concat (chunks codes) = sorted_set codes"
proof -
  have "length (sorted_set codes)
      \<le> ((length (sorted_set codes) + BATCH_SIZE - 1) div BATCH_SIZE) * BATCH_SIZE"
    by (rule ceil_div_covers) (simp add: BATCH_SIZE_def)
  then show ?thesis
    unfolding chunks_unfold concat_slices by simp
qed

lemma chunk_nonempty:
  assumes "chunk \<in> set (chunks codes)"
  shows "chunk \<noteq> []"
proof -
  from assms obtain k where k: "k < (length (sorted_set codes) + BATCH_SIZE - 1) div BATCH_SIZE"
    and c: "chunk = take BATCH_SIZE (drop (k * BATCH_SIZE) (sorted_set codes))"
    unfolding chunks_unfold by auto
  have "k * BATCH_SIZE < length (sorted_set codes)"
    using k by (intro ceil_div_tight) (simp_all add: BATCH_SIZE_def)
  then show ?thesis using c by (simp add: BATCH_SIZE_def)
qed

lemma chunk_length_le:
  assumes "chunk \<in> set (chunks codes)"
  shows "length chunk \<le> BATCH_SIZE"
  using assms unfolding chunks_unfold by auto

lemma chunk_length_full:
  assumes "Suc i < length (chunks codes)"
  shows "length (chunks codes ! i) = BATCH_SIZE"
proof -
  let ?n = "(length (sorted_set codes) + BATCH_SIZE - 1) div BATCH_SIZE"
  have len: "length (chunks codes) = ?n" unfolding chunks_unfold by simp
  have "Suc i * BATCH_SIZE < length (sorted_set codes)"
    using assms len by (intro ceil_div_tight) (simp_all add: BATCH_SIZE_def)
  moreover have "chunks codes ! i = take BATCH_SIZE (drop (i * BATCH_SIZE) (sorted_set codes))"
    using assms len unfolding chunks_unfold by simp
  ultimately show ?thesis by simp
qed

lemma sorted_set_props:
  "sorted (sorted_set codes) \<and> distinct (sorted_set codes) \<and> set (sorted_set codes) = set codes"
  by (simp add: sorted_set_def)

text \<open>
  Claim C3. For every list of identifiers, duplicates included, the batches concatenated
  in order are the sorted list of the distinct identifiers of the input: sorted, free of
  duplicates, with the same elements as the input. Every batch has at most
  \<open>BATCH_SIZE\<close> identifiers, every batch but the last has exactly \<open>BATCH_SIZE\<close>, and
  the empty input gives no batch.
\<close>

theorem partitioner_batches:
  "concat (chunks codes) = sort (remdups codes)
   \<and> sorted (concat (chunks codes))
   \<and> distinct (concat (chunks codes))
   \<and> set (concat (chunks codes)) = set codes
   \<and> (\<forall>chunk \<in> set (chunks codes). length chunk \<le> BATCH_SIZE)
   \<and> (\<forall>i. Suc i < length (chunks codes) \<longrightarrow> length (chunks codes ! i) = BATCH_SIZE)
   \<and> chunks [] = []"
proof -
  have "chunks [] = []"
    by (simp add: chunks_unfold sorted_set_def BATCH_SIZE_def)
  moreover have "concat (chunks codes) = sort (remdups codes)"
    by (simp add: concat_chunks sorted_set_def)
  ultimately show ?thesis
    using sorted_set_props [of codes] chunk_length_le [of _ codes] chunk_length_full [of _ codes]
    by (simp add: concat_chunks)
qed

lemma chunks_example:
  "chunks [12, 3, 7, 3, 1, 25, 9, 4, 12, 8, 2, 6, 5, 11, 10]
     = [[1, 2, 3, 4, 5, 6, 7, 8, 9, 10], [11, 12, 25]]"
  by code_simp

theorem partitioner_batches_witness:
  "concat (chunks [12, 3, 7, 3, 1, 25, 9, 4, 12, 8, 2, 6, 5, 11, 10])
     = [1, 2, 3, 4, 5, 6, 7, 8, 9, 10, 11, 12, 25]
   \<and> length (chunks [12, 3, 7, 3, 1, 25, 9, 4, 12, 8, 2, 6, 5, 11, 10] ! 0) = BATCH_SIZE
   \<and> length (chunks [12, 3, 7, 3, 1, 25, 9, 4, 12, 8, 2, 6, 5, 11, 10] ! 1) \<le> BATCH_SIZE"
  using partitioner_batches [of "[12, 3, 7, 3, 1, 25, 9, 4, 12, 8, 2, 6, 5, 11, 10]"]
  unfolding chunks_example by (simp add: BATCH_SIZE_def)

lemma individual_recovery_returns:
  "\<exists>s'. individual_recovery sgs_get d code s = (Inr (), s')"
  by (simp add: individual_recovery_def Let_def split: prod.splits sum.splits)

lemma recovery_loop_returns:
  "\<exists>s'. recovery_loop sgs_get d codes s = (Inr (), s')"
proof (induction codes arbitrary: s)
  case Nil
  show ?case by simp
next
  case (Cons code rest)
  obtain s1 where "individual_recovery sgs_get d code s = (Inr (), s1)"
    using individual_recovery_returns by blast
  then show ?case using Cons [of s1] by simp
qed

lemma process_batch_chunk_returns:
  assumes "chunk \<noteq> []"
  shows "\<exists>s. process_batch_chunk sgs_get chunk d w = (Inr (chunk_results s), s)"
proof -
  obtain c0 cs where c: "chunk = c0 # cs" using assms by (cases chunk) auto
  show ?thesis
  proof (cases "call sgs_get (GetBatch chunk d) (print (LogBatchStart c0) \<lparr>chunk_results = [], trace = [], world = w\<rparr>)")
    case (Pair r s1)
    show ?thesis
    proof (cases r)
      case (Inl e)
      obtain s2 where "recovery_loop sgs_get d chunk (print (LogBatchFailure c0) s1) = (Inr (), s2)"
        using recovery_loop_returns by blast
      then show ?thesis using Pair Inl c by (simp add: process_batch_chunk_def)
    next
      case (Inr df)
      then show ?thesis using Pair c by (simp add: process_batch_chunk_def Let_def)
    qed
  qed
qed

text \<open>
  Claim C10. No chunk that download_series_batch builds is empty, so on each of them
  \<open>process_batch_chunk\<close> returns a list of results and raises no IndexError from
  \<open>chunk[0]\<close>; an empty chunk is the input on which it would.
\<close>

theorem chunks_never_empty:
  "(\<forall>chunk \<in> set (chunks codes). chunk \<noteq> []
      \<and> (\<exists>res. fst (process_batch_chunk sgs_get chunk start_date w) = Inr res))
   \<and> fst (process_batch_chunk sgs_get [] start_date w) = Inl IndexError"
proof -
  have "\<exists>res. fst (process_batch_chunk sgs_get chunk start_date w) = Inr res"
    if "chunk \<noteq> []" for chunk
    using process_batch_chunk_returns [OF that, of sgs_get start_date w] by (metis fst_conv)
  moreover have "fst (process_batch_chunk sgs_get [] start_date w) = Inl IndexError"
    by (simp add: process_batch_chunk_def)
  ultimately show ?thesis using chunk_nonempty [of _ codes] by blast
qed

section \<open>Properties of process_batch_chunk\<close>

lemma strict_attempts_append:
  "strict_attempts (xs @ ys) = strict_attempts xs @ strict_attempts ys"
  by (induction xs rule: strict_attempts.induct) simp_all

lemma filter_from_columns: "columns (filter_from d ts) = columns ts"
  by (simp add: filter_from_def)

lemma df_empty_filter_from: "df_empty ts \<Longrightarrow> df_empty (filter_from d ts)"
  by (auto simp: df_empty_def filter_from_def)

lemma recovery_strict_ok:
  assumes "sgs_get (world s) (GetStrict code d) = (Inr ts, w1)"
  shows "individual_recovery sgs_get d code s =
     (Inr (), s\<lparr>chunk_results := chunk_results s @ [assign_name code ts],
                trace := trace s @ [Call (GetStrict code d)], world := w1\<rparr>)"
  using assms by (simp add: individual_recovery_def call_def append_def)

lemma recovery_full_kept:
  assumes "sgs_get (world s) (GetStrict code d) = (Inl e, w1)"
    and "sgs_get w1 (GetFull code) = (Inr ts, w2)"
    and "\<not> df_empty (filter_from d ts)"
  shows "individual_recovery sgs_get d code s =
     (Inr (), s\<lparr>chunk_results := chunk_results s @ [assign_name code (filter_from d ts)],
                trace := trace s @ [Call (GetStrict code d), Call (GetFull code)], world := w2\<rparr>)"
proof -
  have "\<not> df_empty ts" using assms(3) df_empty_filter_from by blast
  then show ?thesis
    using assms by (simp add: individual_recovery_def call_def append_def Let_def)
qed

lemma recovery_full_none:
  assumes "sgs_get (world s) (GetStrict code d) = (Inl e, w1)"
    and "sgs_get w1 (GetFull code) = (Inr ts, w2)"
    and "df_empty (filter_from d ts)"
  shows "individual_recovery sgs_get d code s =
     (Inr (), s\<lparr>trace := trace s @ [Call (GetStrict code d), Call (GetFull code)]
                   @ (if df_empty ts then [] else [LogNoneInPeriod code]), world := w2\<rparr>)"
  using assms by (simp add: individual_recovery_def call_def print_def Let_def)

lemma recovery_both_fail:
  assumes "sgs_get (world s) (GetStrict code d) = (Inl e, w1)"
    and "sgs_get w1 (GetFull code) = (Inl e', w2)"
  shows "individual_recovery sgs_get d code s =
     (Inr (), s\<lparr>trace := trace s @ [Call (GetStrict code d), Call (GetFull code),
                   LogFailedPermanently code], world := w2\<rparr>)"
  using assms by (simp add: individual_recovery_def call_def print_def)








lemma recovery_step:
  "\<exists>s1. individual_recovery sgs_get d code s = (Inr (), s1)
     \<and> chunk_results s1 = chunk_results s @ contribution [(code, s, s1)]
     \<and> strict_attempts (trace s1) = strict_attempts (trace s) @ [code]"
proof (cases "sgs_get (world s) (GetStrict code d)")
  case (Pair r w1)
  show ?thesis
  proof (cases r)
    case (Inr ts)
    with Pair have "sgs_get (world s) (GetStrict code d) = (Inr ts, w1)" by simp
    then have "individual_recovery sgs_get d code s =
       (Inr (), s\<lparr>chunk_results := chunk_results s @ [assign_name code ts],
                  trace := trace s @ [Call (GetStrict code d)], world := w1\<rparr>)"
      by (rule recovery_strict_ok [of sgs_get s code d])
    then show ?thesis by (simp add: outcome_of_def strict_attempts_append)
  next
    case (Inl e)
    with Pair have a1: "sgs_get (world s) (GetStrict code d) = (Inl e, w1)" by simp
    show ?thesis
    proof (cases "sgs_get w1 (GetFull code)")
      case (Pair r2 w2)
      show ?thesis
      proof (cases r2)
        case (Inl e')
        with Pair have "sgs_get w1 (GetFull code) = (Inl e', w2)" by simp
        with a1 have "individual_recovery sgs_get d code s =
           (Inr (), s\<lparr>trace := trace s @ [Call (GetStrict code d), Call (GetFull code),
                   LogFailedPermanently code], world := w2\<rparr>)"
          by (intro recovery_both_fail [of sgs_get s code d e w1 e' w2])
        then show ?thesis by (simp add: outcome_of_def strict_attempts_append)
      next
        case (Inr ts)
        with Pair have a2: "sgs_get w1 (GetFull code) = (Inr ts, w2)" by simp
        show ?thesis
        proof (cases "df_empty (filter_from d ts)")
          case True
          with a1 a2 have "individual_recovery sgs_get d code s =
             (Inr (), s\<lparr>trace := trace s @ [Call (GetStrict code d), Call (GetFull code)]
                   @ (if df_empty ts then [] else [LogNoneInPeriod code]), world := w2\<rparr>)"
            by (intro recovery_full_none [of sgs_get s code d e w1 ts w2])
          then show ?thesis by (simp add: outcome_of_def strict_attempts_append)
        next
          case False
          with a1 a2 have "individual_recovery sgs_get d code s =
             (Inr (), s\<lparr>chunk_results := chunk_results s @ [assign_name code (filter_from d ts)],
                trace := trace s @ [Call (GetStrict code d), Call (GetFull code)], world := w2\<rparr>)"
            by (intro recovery_full_kept [of sgs_get s code d e w1 ts w2])
          then show ?thesis by (simp add: outcome_of_def strict_attempts_append)
        qed
      qed
    qed
  qed
qed

lemma contribution_Cons:
  "contribution (r # rs) = contribution [r] @ contribution rs"
  by (cases r) (simp split: fetch_outcome.splits)

lemma recovery_loop_effect:
  "\<exists>s'. recovery_loop sgs_get d codes s = (Inr (), s')
     \<and> chunk_results s' = chunk_results s @ contribution (resolutions sgs_get d codes s)
     \<and> strict_attempts (trace s') = strict_attempts (trace s) @ codes"
proof (induction codes arbitrary: s)
  case Nil
  show ?case by simp
next
  case (Cons code rest)
  obtain s1 where s1: "individual_recovery sgs_get d code s = (Inr (), s1)"
    and c1: "chunk_results s1 = chunk_results s @ contribution [(code, s, s1)]"
    and t1: "strict_attempts (trace s1) = strict_attempts (trace s) @ [code]"
    using recovery_step [of sgs_get d code s] by blast
  obtain s' where s': "recovery_loop sgs_get d rest s1 = (Inr (), s')"
    and c': "chunk_results s' = chunk_results s1 @ contribution (resolutions sgs_get d rest s1)"
    and t': "strict_attempts (trace s') = strict_attempts (trace s1) @ rest"
    using Cons [of s1] by blast
  have "resolutions sgs_get d (code # rest) s = (code, s, s1) # resolutions sgs_get d rest s1"
    using s1 by (simp add: Let_def)
  then have "contribution (resolutions sgs_get d (code # rest) s)
      = contribution [(code, s, s1)] @ contribution (resolutions sgs_get d rest s1)"
    using contribution_Cons by metis
  then show ?case using s1 s' c1 c' t1 t' by simp
qed

lemma length_resolutions: "length (resolutions sgs_get d codes s) = length codes"
  by (induction codes arbitrary: s) (simp_all add: Let_def)

lemma batch_fallback_effect:
  fixes sgs_get :: "('w, 'v) remote"
  assumes "fst (sgs_get w (GetBatch chunk start_date)) = Inl e"
  shows "strict_attempts (trace (snd (process_batch_chunk sgs_get chunk start_date w))) = chunk
    \<and> length (resolutions sgs_get start_date chunk (recovery_start sgs_get chunk start_date w))
        = length chunk
    \<and> collect (fst (process_batch_chunk sgs_get chunk start_date w))
        = contribution (resolutions sgs_get start_date chunk (recovery_start sgs_get chunk start_date w))"
proof (cases chunk)
  case Nil
  then show ?thesis by (simp add: process_batch_chunk_def collect_def)
next
  case (Cons c0 cs)
  let ?s0 = "print (LogBatchStart c0) (\<lparr>chunk_results = [], trace = [], world = w\<rparr> :: ('w, 'v) task_state)"
  obtain w1 where w1: "sgs_get w (GetBatch chunk start_date) = (Inl e, w1)"
    using assms by (cases "sgs_get w (GetBatch chunk start_date)") simp
  define s1 where "s1 = ?s0\<lparr>trace := trace ?s0 @ [Call (GetBatch chunk start_date)], world := w1\<rparr>"
  have call: "call sgs_get (GetBatch chunk start_date) ?s0 = (Inl e, s1)"
    using w1 by (simp add: call_def s1_def print_def)
  have start: "recovery_start sgs_get chunk start_date w = print (LogBatchFailure c0) s1"
    using call Cons by (simp add: recovery_start_def)
  obtain s2 where loop: "recovery_loop sgs_get start_date chunk (print (LogBatchFailure c0) s1) = (Inr (), s2)"
    and res: "chunk_results s2 = chunk_results (print (LogBatchFailure c0) s1)
        @ contribution (resolutions sgs_get start_date chunk (print (LogBatchFailure c0) s1))"
    and att: "strict_attempts (trace s2) = strict_attempts (trace (print (LogBatchFailure c0) s1)) @ chunk"
    using recovery_loop_effect [of sgs_get start_date chunk "print (LogBatchFailure c0) s1"] by blast
  have pbc: "process_batch_chunk sgs_get chunk start_date w = (Inr (chunk_results s2), s2)"
    using call loop Cons by (simp add: process_batch_chunk_def)
  have "chunk_results (print (LogBatchFailure c0) s1) = []"
    by (simp add: print_def s1_def)
  moreover have "strict_attempts (trace (print (LogBatchFailure c0) s1)) = []"
    by (simp add: print_def s1_def)
  ultimately show ?thesis
    using pbc res att start by (simp add: collect_def length_resolutions)
qed

text \<open>
  Claim C1. When the combined call for a batch of N identifiers fails, the task makes one
  individual strict attempt per identifier, in the order of the batch (N attempts), runs
  N individual resolutions, and what the task adds to the results is exactly the series
  of the resolutions that succeeded.
\<close>

theorem batch_failure_individual_resolutions:
  fixes sgs_get :: "('w, 'v) remote"
  assumes "fst (sgs_get w (GetBatch chunk start_date)) = Inl e"
  shows "strict_attempts (trace (snd (process_batch_chunk sgs_get chunk start_date w))) = chunk
    \<and> length (resolutions sgs_get start_date chunk (recovery_start sgs_get chunk start_date w))
        = length chunk
    \<and> collect (fst (process_batch_chunk sgs_get chunk start_date w))
        = contribution (resolutions sgs_get start_date chunk (recovery_start sgs_get chunk start_date w))"
  using batch_fallback_effect [of sgs_get w chunk start_date e] assms by blast

text \<open>
  Claim C9. For an identifier whose strict call and full-history call fail whatever the
  state of the remote source, two resolutions in a row both return normally with the
  outcome permanently failed, and neither adds an observation.
\<close>

theorem resolver_unreachable_twice:
  assumes "\<forall>w. isl (fst (sgs_get w (GetStrict code d))) \<and> isl (fst (sgs_get w (GetFull code)))"
  shows "\<exists>s1 s2. individual_recovery sgs_get d code s = (Inr (), s1)
      \<and> individual_recovery sgs_get d code s1 = (Inr (), s2)
      \<and> outcome_of code s s1 = PermanentlyFailed
      \<and> outcome_of code s1 s2 = PermanentlyFailed
      \<and> chunk_results s1 = chunk_results s
      \<and> chunk_results s2 = chunk_results s"
proof -
  have once: "\<exists>s1. individual_recovery sgs_get d code s0 = (Inr (), s1)
      \<and> outcome_of code s0 s1 = PermanentlyFailed \<and> chunk_results s1 = chunk_results s0" for s0
  proof -
    obtain e w1 where a1: "sgs_get (world s0) (GetStrict code d) = (Inl e, w1)"
      using assms by (metis isl_def prod.collapse)
    obtain e' w2 where a2: "sgs_get w1 (GetFull code) = (Inl e', w2)"
      using assms by (metis isl_def prod.collapse)
    have "individual_recovery sgs_get d code s0 =
       (Inr (), s0\<lparr>trace := trace s0 @ [Call (GetStrict code d), Call (GetFull code),
                   LogFailedPermanently code], world := w2\<rparr>)"
      using a1 a2 by (intro recovery_both_fail [of sgs_get s0 code d e w1 e' w2])
    then show ?thesis by (simp add: outcome_of_def)
  qed
  obtain s1 where s1: "individual_recovery sgs_get d code s = (Inr (), s1)"
    "outcome_of code s s1 = PermanentlyFailed" "chunk_results s1 = chunk_results s"
    using once [of s] by blast
  obtain s2 where s2: "individual_recovery sgs_get d code s1 = (Inr (), s2)"
    "outcome_of code s1 s2 = PermanentlyFailed" "chunk_results s2 = chunk_results s1"
    using once [of s1] by blast
  show ?thesis using s1 s2 by auto
qed

section \<open>Runs on the concrete remote source\<close>

lemma demo_batch_fails:
  "fst (demo_remote 0 (GetBatch [1, 2, 5, 7] START_DATE)) = Inl (RemoteError ''batch'')"
  by (simp add: demo_remote_def)

lemma demo_batch_run:
  "collect (fst (process_batch_chunk demo_remote [1, 2, 5, 7] START_DATE 0))
     = [(demo_series 1 [(2010, 1, 1), (2010, 2, 1)])\<lparr>name := Some 1\<rparr>,
        (demo_series 2 [(2010, 3, 1)])\<lparr>name := Some 2\<rparr>]"
  by (simp add: process_batch_chunk_def individual_recovery_def call_def print_def append_def
      demo_remote_def collect_def START_DATE_def demo_series_def df_empty_def filter_from_def
      assign_name_def Let_def)

theorem batch_failure_individual_resolutions_witness:
  "fst (demo_remote 0 (GetBatch [1, 2, 5, 7] START_DATE)) = Inl (RemoteError ''batch'')
   \<and> strict_attempts (trace (snd (process_batch_chunk demo_remote [1, 2, 5, 7] START_DATE 0)))
       = [1, 2, 5, 7]
   \<and> contribution (resolutions demo_remote START_DATE [1, 2, 5, 7]
         (recovery_start demo_remote [1, 2, 5, 7] START_DATE 0))
       = [(demo_series 1 [(2010, 1, 1), (2010, 2, 1)])\<lparr>name := Some 1\<rparr>,
          (demo_series 2 [(2010, 3, 1)])\<lparr>name := Some 2\<rparr>]"
  using batch_failure_individual_resolutions [of demo_remote 0 "[1, 2, 5, 7]" START_DATE "RemoteError ''batch''"]
    demo_batch_fails
  unfolding demo_batch_run by simp






lemma demo_unreachable:
  "\<forall>w. isl (fst (demo_remote w (GetStrict 7 START_DATE))) \<and> isl (fst (demo_remote w (GetFull 7)))"
  by (simp add: demo_remote_def)

theorem resolver_unreachable_twice_witness:
  "(\<forall>w. isl (fst (demo_remote w (GetStrict 7 START_DATE))) \<and> isl (fst (demo_remote w (GetFull 7))))
   \<and> (\<exists>s1 s2. individual_recovery demo_remote START_DATE 7 demo_state = (Inr (), s1)
      \<and> individual_recovery demo_remote START_DATE 7 s1 = (Inr (), s2)
      \<and> outcome_of 7 demo_state s1 = PermanentlyFailed
      \<and> outcome_of 7 s1 s2 = PermanentlyFailed
      \<and> chunk_results s1 = chunk_results demo_state
      \<and> chunk_results s2 = chunk_results demo_state)"
  using resolver_unreachable_twice [OF demo_unreachable, of demo_state] demo_unreachable
  by blast

theorem chunks_never_empty_witness:
  "[11, 12, 25] \<in> set (chunks [12, 3, 7, 3, 1, 25, 9, 4, 12, 8, 2, 6, 5, 11, 10])
   \<and> [11, 12, 25] \<noteq> ([] :: int list)
   \<and> (\<exists>res. fst (process_batch_chunk demo_remote [11, 12, 25] START_DATE 0) = Inr res)"
proof -
  have "[11, 12, 25] \<in> set (chunks [12, 3, 7, 3, 1, 25, 9, 4, 12, 8, 2, 6, 5, 11, 10])"
    unfolding chunks_example by simp
  then show ?thesis
    using chunks_never_empty [of "[12, 3, 7, 3, 1, 25, 9, 4, 12, 8, 2, 6, 5, 11, 10]" demo_remote START_DATE 0]
    by blast
qed

section \<open>Properties of the time axis\<close>

lemma month_number_start: "month_number (month_start k) = k"
  by (simp add: month_number_def month_start_def)

lemma month_start_number:
  assumes "1 \<le> m" "m \<le> 12"
  shows "month_start (month_number (y, m, d)) = (y, m, 1)"
proof -
  obtain j where j: "m = Suc j" "j < 12" using assms by (cases m) auto
  then show ?thesis by (simp add: month_number_def month_start_def)
qed

lemma valid_month_start: "valid_date (month_start k)"
  by (simp add: valid_date_def month_start_def) 

lemma month_start_strict:
  assumes "k < k'"
  shows "month_start k < month_start k'"
proof -
  have le: "k div 12 \<le> k' div 12" using assms by (simp add: div_le_mono)
  show ?thesis
  proof (cases "k div 12 = k' div 12")
    case True
    then have "k mod 12 < k' mod 12"
      using assms by (metis div_mult_mod_eq nat_add_left_cancel_less)
    then show ?thesis using True
      by (simp add: month_start_def less_prod_def less_eq_prod_def)
  next
    case False
    then have "k div 12 < k' div 12" using le by simp
    then show ?thesis
      by (simp add: month_start_def less_prod_def less_eq_prod_def)
  qed
qed

lemma month_start_mono: "k \<le> k' \<Longrightarrow> month_start k \<le> month_start k'"
  using month_start_strict [of k k'] by (cases "k = k'") (auto simp: less_le)

lemma month_number_mono:
  assumes "valid_date s" "valid_date t" "s \<le> t"
  shows "month_number s \<le> month_number t"
proof -
  obtain y m d where s: "s = (y, m, d)" by (cases s) auto
  obtain y' m' d' where t: "t = (y', m', d')" by (cases t) auto
  have b: "1 \<le> m" "m \<le> 12" "1 \<le> m'" "m' \<le> 12"
    using assms(1,2) by (simp_all add: valid_date_def s t)
  have "y < y' \<or> (y = y' \<and> m \<le> m')"
    using assms(3) by (auto simp: s t less_eq_prod_def)
  then show ?thesis using b by (auto simp: month_number_def s t)
qed

lemma month_start_le:
  assumes "valid_date t"
  shows "month_start (month_number t) \<le> t"
proof -
  obtain y m d where t: "t = (y, m, d)" by (cases t) auto
  have "1 \<le> m" "m \<le> 12" "1 \<le> d" using assms by (simp_all add: valid_date_def t)
  then show ?thesis
    using month_start_number [of m y d] by (simp add: t less_eq_prod_def)
qed

lemma next_month_start_gt:
  assumes "valid_date t"
  shows "t < month_start (month_number t + 1)"
proof -
  obtain y m d where t: "t = (y, m, d)" by (cases t) auto
  have b: "1 \<le> m" "m \<le> 12" using assms by (simp_all add: valid_date_def t)
  have "month_start (month_number t) < month_start (month_number t + 1)"
    by (rule month_start_strict) simp
  then have "(y, m, 1::nat) < month_start (month_number t + 1)"
    using month_start_number [OF b, of y d] by (simp add: t)
  then show ?thesis
    by (auto simp: t month_start_def less_prod_def less_eq_prod_def)
qed

lemma in_date_range:
  "t \<in> set (date_range_MS start stop) \<longleftrightarrow>
     (\<exists>k. (if snd (snd start) = 1 then month_number start else month_number start + 1) \<le> k
        \<and> k \<le> month_number stop \<and> t = month_start k)"
  by (auto simp: date_range_MS_def Let_def)

lemma date_range_members:
  assumes "valid_date start" "valid_date stop"
  shows "t \<in> set (date_range_MS start stop) \<longleftrightarrow>
     valid_date t \<and> snd (snd t) = 1 \<and> start \<le> t \<and> t \<le> stop"
proof
  assume "t \<in> set (date_range_MS start stop)"
  then obtain k where k: "(if snd (snd start) = 1 then month_number start else month_number start + 1) \<le> k"
      "k \<le> month_number stop" "t = month_start k"
    unfolding in_date_range by blast
  have "start \<le> t"
  proof (cases "snd (snd start) = 1")
    case True
    obtain y m d where s: "start = (y, m, d)" by (cases start) auto
    have "1 \<le> m" "m \<le> 12" using assms(1) by (simp_all add: valid_date_def s)
    then have "month_start (month_number start) = start"
      using month_start_number [of m y d] True by (simp add: s)
    moreover have "month_start (month_number start) \<le> month_start k"
      using k(1) True by (intro month_start_mono) simp
    ultimately show ?thesis using k(3) by simp
  next
    case False
    have "start < month_start (month_number start + 1)"
      by (rule next_month_start_gt [OF assms(1)])
    also have "\<dots> \<le> month_start k"
      using k(1) False by (intro month_start_mono) simp
    finally show ?thesis using k(3) by simp
  qed
  moreover have "t \<le> stop"
  proof -
    have "month_start k \<le> month_start (month_number stop)"
      using k(2) by (rule month_start_mono)
    also have "\<dots> \<le> stop" by (rule month_start_le [OF assms(2)])
    finally show ?thesis using k(3) by simp
  qed
  ultimately show "valid_date t \<and> snd (snd t) = 1 \<and> start \<le> t \<and> t \<le> stop"
    using k(3) valid_month_start by (simp add: month_start_def)
next
  assume a: "valid_date t \<and> snd (snd t) = 1 \<and> start \<le> t \<and> t \<le> stop"
  obtain y m d where t: "t = (y, m, d)" by (cases t) auto
  have b: "1 \<le> m" "m \<le> 12" "d = 1" using a by (simp_all add: valid_date_def t)
  have eq: "t = month_start (month_number t)"
    using month_start_number [OF b(1,2), of y d] b(3) by (simp add: t)
  have up: "month_number t \<le> month_number stop"
    using a assms(2) by (intro month_number_mono) simp_all
  have lo: "month_number start \<le> month_number t"
    using a assms(1) by (intro month_number_mono) simp_all
  have "month_number start < month_number t" if ne: "snd (snd start) \<noteq> 1"
  proof (rule ccontr)
    assume "\<not> month_number start < month_number t"
    then have e: "month_number start = month_number t" using lo by simp
    obtain y' m' d' where s: "start = (y', m', d')" by (cases start) auto
    have sb: "1 \<le> m'" "m' \<le> 12" "1 \<le> d'" using assms(1) by (simp_all add: valid_date_def s)
    have "month_start (month_number start) = (y', m', 1)"
      using month_start_number [OF sb(1,2), of y' d'] by (simp add: s)
    then have "t = (y', m', 1)" using eq e by simp
    moreover have "1 < d'" using ne sb(3) by (simp add: s)
    ultimately have "t < start" by (simp add: s less_prod_def less_eq_prod_def)
    then have "\<not> start \<le> t" by (simp add: not_le)
    then show False using a by blast
  qed
  then show "t \<in> set (date_range_MS start stop)"
    unfolding in_date_range using eq up lo by (intro exI [of _ "month_number t"]) auto
qed

lemma date_range_sorted: "sorted (date_range_MS start stop) \<and> distinct (date_range_MS start stop)"
proof -
  have "sorted_wrt (\<lambda>k k'. month_start k < month_start k') [a..<b]" for a b
    by (rule sorted_wrt_mono_rel [of _ "(<)"]) (simp_all add: month_start_strict)
  then have "sorted_wrt (<) (date_range_MS start stop)"
    unfolding date_range_MS_def Let_def sorted_wrt_map by blast
  then show ?thesis by (simp add: strict_sorted_iff)
qed

lemma date_range_empty:
  assumes "valid_date start" "valid_date stop" "stop < start"
  shows "date_range_MS start stop = []"
proof -
  have "t \<notin> set (date_range_MS start stop)" for t
    using date_range_members [OF assms(1,2), of t] assms(3) by auto
  then show ?thesis by (cases "date_range_MS start stop") auto
qed

text \<open>
  Claim C7. For every start and end date, the axis is ordered and free of duplicates, and
  its elements are exactly the first days of the months that lie in the closed interval
  from start to end; so every element is the first day of its month also when the start
  is not, and the axis is empty, with no error, when the start is after the end.
\<close>

theorem axis_month_starts:
  assumes "valid_date start" and "valid_date stop"
  shows "sorted (date_range_MS start stop)
    \<and> distinct (date_range_MS start stop)
    \<and> (\<forall>t. t \<in> set (date_range_MS start stop) \<longleftrightarrow>
          valid_date t \<and> snd (snd t) = 1 \<and> start \<le> t \<and> t \<le> stop)
    \<and> (stop < start \<longrightarrow> date_range_MS start stop = [])"
  using date_range_sorted [of start stop] date_range_members [OF assms]
    date_range_empty [OF assms] by blast

lemma date_range_example:
  "date_range_MS (2010, 11, 15) (2011, 2, 3) = [(2010, 12, 1), (2011, 1, 1), (2011, 2, 1)]"
  by (simp add: date_range_MS_def month_number_def month_start_def)

lemma date_range_example_empty: "date_range_MS (2011, 2, 3) (2010, 11, 15) = []"
  by (simp add: date_range_MS_def month_number_def month_start_def)

theorem axis_month_starts_witness:
  "valid_date (2010, 11, 15) \<and> valid_date (2011, 2, 3)
   \<and> sorted (date_range_MS (2010, 11, 15) (2011, 2, 3))
   \<and> distinct (date_range_MS (2010, 11, 15) (2011, 2, 3))
   \<and> (2010, 12, 1) \<in> set (date_range_MS (2010, 11, 15) (2011, 2, 3))
   \<and> (2010, 11, 1) \<notin> set (date_range_MS (2010, 11, 15) (2011, 2, 3))
   \<and> date_range_MS (2011, 2, 3) (2010, 11, 15) = []"
proof -
  have v: "valid_date (2010, 11, 15)" "valid_date (2011, 2, 3)" "valid_date (2010, 12, 1)"
    by (simp_all add: valid_date_def)
  have o: "((2010, 11, 15) :: date) \<le> (2010, 12, 1)" "((2010, 12, 1) :: date) \<le> (2011, 2, 3)"
    "((2010, 11, 15) :: date) < (2011, 2, 3)" "\<not> ((2010, 11, 15) :: date) \<le> (2010, 11, 1)"
    by simp_all
  show ?thesis
    using axis_month_starts [OF v(1) v(2)] axis_month_starts [OF v(2) v(1)] v o
    by simp
qed

section \<open>Properties of the consolidation\<close>



















































section \<open>Properties of the column letters\<close>

lemma digits_value_snoc:
  "digits_value (ds @ [c]) = digits_value ds + 26 ^ length ds * (of_char c - 64)"
  by (induction ds) (simp_all add: digits_value_def algebra_simps)

lemma of_char_letter:
  assumes "r \<le> 26"
  shows "(of_char (char_of (r + 64 :: nat)) :: nat) = r + 64"
  using assms by simp

lemma letters_loop_value:
  "digits_value (letters_loop n acc) = digits_value acc + 26 ^ length acc * n"
proof (induction n acc rule: letters_loop.induct)
  case (1 col_idx letters)
  show ?case
  proof (cases "col_idx = 0")
    case True
    then show ?thesis by simp
  next
    case False
    show ?thesis
    proof (cases "col_idx mod 26 = 0")
      case True
      then obtain q where q: "col_idx = 26 * q" by auto
      with False have q0: "0 < q" by simp
      have "digits_value (letters_loop col_idx letters)
          = digits_value (letters_loop (col_idx div 26 - 1) (letters @ [char_of (26 + 64 :: nat)]))"
        using False True by (subst letters_loop.simps) simp
      also have "\<dots> = digits_value (letters @ [char_of (26 + 64 :: nat)])
          + 26 ^ length (letters @ [char_of (26 + 64 :: nat)]) * (col_idx div 26 - 1)"
        using "1.IH"(1) [OF False True] .
      also have "\<dots> = digits_value letters + 26 ^ length letters * 26
          + 26 ^ length letters * 26 * (q - 1)"
        using q by (simp add: digits_value_snoc)
      also have "\<dots> = digits_value letters + 26 ^ length letters * (26 * q)"
        using q0 by (cases q) (simp_all add: algebra_simps)
      finally show ?thesis using q by simp
    next
      case nz: False
      have r: "col_idx mod 26 \<le> 26" by simp
      have "digits_value (letters_loop col_idx letters)
          = digits_value (letters_loop (col_idx div 26) (letters @ [char_of (col_idx mod 26 + 64)]))"
        using False nz by (subst letters_loop.simps) simp
      also have "\<dots> = digits_value (letters @ [char_of (col_idx mod 26 + 64)])
          + 26 ^ length (letters @ [char_of (col_idx mod 26 + 64)]) * (col_idx div 26)"
        using "1.IH"(2) [OF False nz] .
      also have "\<dots> = digits_value letters + 26 ^ length letters * (col_idx mod 26)
          + 26 ^ length letters * 26 * (col_idx div 26)"
        using of_char_letter [OF r] by (simp add: digits_value_snoc)
      also have "\<dots> = digits_value letters + 26 ^ length letters * (col_idx mod 26 + 26 * (col_idx div 26))"
        by (simp only: distrib_left mult.assoc add.assoc)
      also have "col_idx mod 26 + 26 * (col_idx div 26) = col_idx"
        by presburger
      finally show ?thesis .
    qed
  qed
qed

lemma column_letter_value: "digits_value (rev (column_letter n)) = n"
  using letters_loop_value [of n "[]"] by (simp add: column_letter_def digits_value_def)

lemma column_letter_inj: "column_letter m = column_letter n \<Longrightarrow> m = n"
  by (metis column_letter_value)

lemma letters_loop_upper:
  "upper_case acc \<Longrightarrow> upper_case (letters_loop n acc)"
proof (induction n acc rule: letters_loop.induct)
  case (1 col_idx letters)
  show ?case
  proof (cases "col_idx = 0")
    case True
    then show ?thesis using "1.prems" by simp
  next
    case False
    show ?thesis
    proof (cases "col_idx mod 26 = 0")
      case True
      have "upper_case (letters @ [char_of (26 + 64 :: nat)])"
        using "1.prems" by (simp add: upper_case_def)
      then have "upper_case (letters_loop (col_idx div 26 - 1) (letters @ [char_of (26 + 64 :: nat)]))"
        by (rule "1.IH"(1) [OF False True])
      then show ?thesis using False True by (subst letters_loop.simps) simp
    next
      case nz: False
      have "col_idx mod 26 < 26" by simp
      then have "upper_case (letters @ [char_of (col_idx mod 26 + 64)])"
        using "1.prems" nz by (simp add: upper_case_def)
      then have "upper_case (letters_loop (col_idx div 26) (letters @ [char_of (col_idx mod 26 + 64)]))"
        by (rule "1.IH"(2) [OF False nz])
      then show ?thesis using False nz by (subst letters_loop.simps) simp
    qed
  qed
qed

lemma column_letter_upper: "upper_case (column_letter n)"
  using letters_loop_upper [of "[]" n] by (simp add: column_letter_def upper_case_def)

lemma upper_of_upper_case: "upper_case s \<Longrightarrow> upper s = s"
  by (induction s) (simp_all add: upper_case_def upper_def)

lemma upper_idem: "upper (upper s) = upper s"
proof -
  have "(of_char (char_of ((of_char c :: nat) - 32)) :: nat) = of_char c - 32" for c :: char
  proof -
    have "(of_char c :: nat) < 256" by simp
    then have "(of_char c :: nat) - 32 < 256" by linarith
    then show ?thesis by simp
  qed
  then show ?thesis by (induction s) (auto simp: upper_def)
qed

lemma find_unique:
  assumes "m \<in> set xs" and "\<forall>i\<in>set xs. f i = f m \<longrightarrow> i = m"
  shows "find (\<lambda>i. f i = f m) xs = Some m"
  using assms by (induction xs) auto

lemma column_index_of_letter:
  assumes "1 \<le> m" "m \<le> 18278"
  shows "column_index_from_string (column_letter m) = Inr m"
proof -
  have "m \<in> set [1..<18279]" using assms by simp
  then have "find (\<lambda>i. column_letter i = column_letter m) [1..<18279] = Some m"
    by (rule find_unique) (simp add: column_letter_inj)
  then show ?thesis
    by (simp add: column_index_from_string_def upper_of_upper_case [OF column_letter_upper])
qed

lemma column_index_Inr:
  assumes "column_index_from_string s = Inr i"
  shows "1 \<le> i \<and> i \<le> 18278 \<and> column_letter i = upper s"
proof -
  have f: "find (\<lambda>i. column_letter i = upper s) [1..<18279] = Some i"
    using assms by (simp add: column_index_from_string_def split: option.splits)
  then obtain k where "k < length [1..<18279]" "column_letter ([1..<18279] ! k) = upper s"
    "i = [1..<18279] ! k"
    unfolding find_Some_iff by blast
  then show ?thesis by (simp del: upt_rec_numeral)
qed

lemma all_values_map:
  assumes "\<forall>x\<in>set xs. f x = Inr (g x)"
  shows "all_values (map f xs) = Inr (map g xs)"
  using assms by (induction xs) simp_all

lemma all_values_Inr:
  assumes "all_values rs = Inr vs"
  shows "rs = map Inr vs"
  using assms
proof (induction rs arbitrary: vs rule: all_values.induct)
  case 1
  then show ?case by simp
next
  case (2 e rs)
  then show ?case by simp
next
  case (3 v rs)
  then show ?case by (auto split: sum.splits)
qed

lemma generate_column_range_letter:
  assumes "1 \<le> m" "m \<le> 18278"
  shows "generate_column_range (column_letter m) = map column_letter [2..<m + 1]"
proof -
  have "\<forall>i\<in>set [2..<m + 1]. get_column_letter i = Inr (column_letter i)"
    using assms by (auto simp: get_column_letter_def)
  then have "all_values (map get_column_letter [2..<m + 1]) = Inr (map column_letter [2..<m + 1])"
    by (rule all_values_map)
  then show ?thesis
    using column_index_of_letter [OF assms] by (simp add: generate_column_range_def)
qed

lemma column_index_not_letters:
  assumes "\<not> upper_case (upper s)"
  shows "column_index_from_string s = Inl ValueError"
proof -
  have "column_letter i \<noteq> upper s" for i
    using assms column_letter_upper [of i] by auto
  then have "find (\<lambda>i. column_letter i = upper s) [1..<18279] = None"
    unfolding find_None_iff by blast
  then show ?thesis by (simp add: column_index_from_string_def)
qed

lemma column_letter_examples:
  "column_letter 1 = ''A''" "column_letter 2 = ''B''" "column_letter 3 = ''C''"
  "column_letter 4 = ''D''" "column_letter 5 = ''E''" "column_letter 6 = ''F''"
  by code_simp+

section \<open>Properties of the distribution by sheet\<close>

lemma map_of_zip_replace:
  assumes "length ys = length xs"
  shows "map_of (zip xs (map (\<lambda>(l, old). if l = c then v else old) (zip xs ys))) c'
      = (if c' = c \<and> c \<in> set xs then Some v else map_of (zip xs ys) c')"
  using assms by (induction ys xs rule: list_induct2) auto

lemma map_of_zip_snoc:
  assumes "length ys = length xs" "c \<notin> set xs"
  shows "map_of (zip (xs @ [c]) (ys @ [v])) c'
      = (if c' = c then Some v else map_of (zip xs ys) c')"
  using assms by (induction ys xs rule: list_induct2) auto

lemma lookup_set_column:
  assumes "length (cells df) = length (columns df)"
  shows "lookup_column (set_column df c v) c' = (if c' = c then Some v else lookup_column df c')"
proof (cases "c \<in> set (columns df)")
  case True
  then show ?thesis
    using assms by (simp add: lookup_column_def set_column_def map_of_zip_replace)
next
  case False
  have s: "set_column df c v = df\<lparr>columns := columns df @ [c], cells := cells df @ [v]\<rparr>"
    using False by (simp add: set_column_def)
  show ?thesis
    unfolding s lookup_column_def using map_of_zip_snoc [OF assms False, of v c'] by simp
qed

lemma set_column_props:
  assumes "length (cells df) = length (columns df)" "distinct (columns df)"
  shows "index (set_column df c col) = index df"
    and "length (cells (set_column df c col)) = length (columns (set_column df c col))"
    and "distinct (columns (set_column df c col))"
    and "take (length (columns df)) (columns (set_column df c col)) = columns df"
    and "set (columns (set_column df c col)) = insert c (set (columns df))"
  using assms by (auto simp: set_column_def)

lemma select_column_one:
  assumes "distinct xs" "length ys = length xs" "c \<in> set xs"
  shows "\<exists>col. map snd (filter (\<lambda>(l, col). l = c) (zip xs ys)) = [col]
      \<and> map_of (zip xs ys) c = Some col"
  using assms(2,1,3)
proof (induction ys xs rule: list_induct2)
  case Nil
  then show ?case by simp
next
  case (Cons y ys x xs)
  show ?case
  proof (cases "x = c")
    case True
    then have "c \<notin> set xs" using Cons.prems by simp
    then have "filter (\<lambda>(l, col). l = c) (zip xs ys) = []"
      by (auto simp: filter_empty_conv dest: set_zip_leftD)
    then show ?thesis using True by simp
  next
    case False
    then show ?thesis using Cons by simp
  qed
qed

lemma find_snoc:
  "find P (xs @ [x]) = (case find P xs of Some y \<Rightarrow> Some y | None \<Rightarrow> if P x then Some x else None)"
  by (induction xs) simp_all

lemma last_source_Cons:
  "last_source g (row # rows) c =
     (case last_source g rows c of
        Some r \<Rightarrow> Some r
      | None \<Rightarrow> if Coluna row = c \<and> Codigo_Clean row \<in> set (columns g) then Some row else None)"
  by (simp add: last_source_def find_snoc)

lemma last_source_Some:
  assumes "last_source g rows c = Some r"
  shows "r \<in> set rows \<and> Coluna r = c \<and> Codigo_Clean r \<in> set (columns g)"
proof -
  have "find (\<lambda>r. Coluna r = c \<and> Codigo_Clean r \<in> set (columns g)) (rev rows) = Some r"
    using assms by (simp add: last_source_def)
  then obtain i where "i < length (rev rows)" "rev rows ! i = r"
    "Coluna r = c \<and> Codigo_Clean r \<in> set (columns g)"
    unfolding find_Some_iff by blast
  then show ?thesis by (metis nth_mem set_rev)
qed

lemma last_source_None:
  "last_source g rows c = None
    \<longleftrightarrow> \<not> (\<exists>r\<in>set rows. Coluna r = c \<and> Codigo_Clean r \<in> set (columns g))"
  by (auto simp: last_source_def find_None_iff)

lemma realign_no_rows: "realign [] col new_index = map (\<lambda>t. None) new_index"
  by (simp add: realign_def)

lemma data_mapping_effect:
  assumes g: "length (cells g) = length (columns g)" "distinct (columns g)"
    and al: "columns g = [] \<or> index g = index df \<or> index g = []"
    and df: "length (cells df) = length (columns df)" "distinct (columns df)"
  shows "\<exists>df'. data_mapping g rows df = Inr df'
     \<and> index df' = index df
     \<and> length (cells df') = length (columns df')
     \<and> distinct (columns df')
     \<and> take (length (columns df)) (columns df') = columns df
     \<and> set (columns df') = set (columns df) \<union> {c. last_source g rows c \<noteq> None}
     \<and> (\<forall>c. lookup_column df' c =
          (case last_source g rows c of
             None \<Rightarrow> lookup_column df c
           | Some r \<Rightarrow> if index g = index df then lookup_column g (Codigo_Clean r)
                       else Some (map (\<lambda>t. None) (index df))))"
  using al df
proof (induction rows arbitrary: df)
  case Nil
  then show ?case by (simp add: last_source_def)
next
  case (Cons row rows)
  show ?case
  proof (cases "Codigo_Clean row \<in> set (columns g)")
    case False
    obtain df' where d: "data_mapping g rows df = Inr df'"
      "index df' = index df" "length (cells df') = length (columns df')" "distinct (columns df')"
      "take (length (columns df)) (columns df') = columns df"
      "set (columns df') = set (columns df) \<union> {c. last_source g rows c \<noteq> None}"
      "\<forall>c. lookup_column df' c =
          (case last_source g rows c of
             None \<Rightarrow> lookup_column df c
           | Some r \<Rightarrow> if index g = index df then lookup_column g (Codigo_Clean r)
                       else Some (map (\<lambda>t. None) (index df)))"
      using Cons.IH [OF Cons.prems] by blast
    have ls: "last_source g (row # rows) c = last_source g rows c" for c
      using False by (simp add: last_source_Cons split: option.splits)
    have "data_mapping g (row # rows) df = Inr df'" using False d(1) by simp
    then show ?thesis using d(2-7) unfolding ls by blast
  next
    case True
    obtain col where sel: "select_column g (Codigo_Clean row) = [col]"
      and lk: "lookup_column g (Codigo_Clean row) = Some col"
      using select_column_one [OF g(2) g(1) True]
      by (auto simp: select_column_def lookup_column_def)
    have "columns g \<noteq> []" using True by auto
    then have ix: "index g = index df \<or> index g = []" using Cons.prems(1) by simp
    define v where "v = (if index g = index df then col else map (\<lambda>t. None) (index df))"
    have al: "align_series (index g) col (index df) = Inr v"
      using ix by (auto simp: align_series_def v_def realign_no_rows)
    let ?d1 = "set_column df (Coluna row) v"
    note p = set_column_props [OF Cons.prems(2,3), of "Coluna row" v]
    have pre: "columns g = [] \<or> index g = index ?d1 \<or> index g = []"
      using Cons.prems(1) p(1) by simp
    obtain df' where d: "data_mapping g rows ?d1 = Inr df'"
      "index df' = index ?d1" "length (cells df') = length (columns df')" "distinct (columns df')"
      "take (length (columns ?d1)) (columns df') = columns ?d1"
      "set (columns df') = set (columns ?d1) \<union> {c. last_source g rows c \<noteq> None}"
      "\<forall>c. lookup_column df' c =
          (case last_source g rows c of
             None \<Rightarrow> lookup_column ?d1 c
           | Some r \<Rightarrow> if index g = index ?d1 then lookup_column g (Codigo_Clean r)
                       else Some (map (\<lambda>t. None) (index ?d1)))"
      using Cons.IH [OF pre p(2) p(3)] by blast
    have run: "data_mapping g (row # rows) df = Inr df'"
      using True sel al d(1) by simp
    have len: "length (columns df) \<le> length (columns ?d1)"
      using p(4) by (metis length_take min.cobounded2 min.commute)
    have "take (length (columns df)) (columns df')
        = take (length (columns df)) (take (length (columns ?d1)) (columns df'))"
      using len by (simp add: min_def)
    then have tk: "take (length (columns df)) (columns df') = columns df"
      using d(5) p(4) by simp
    have st: "set (columns df') = set (columns df) \<union> {c. last_source g (row # rows) c \<noteq> None}"
      using d(6) p(5) True by (auto simp: last_source_Cons split: option.splits)
    have lu: "lookup_column df' c =
          (case last_source g (row # rows) c of
             None \<Rightarrow> lookup_column df c
           | Some r \<Rightarrow> if index g = index df then lookup_column g (Codigo_Clean r)
                       else Some (map (\<lambda>t. None) (index df)))" for c
    proof (cases "last_source g rows c")
      case (Some r)
      then show ?thesis using d(7) p(1) by (simp add: last_source_Cons)
    next
      case None
      then have "lookup_column df' c = lookup_column ?d1 c" using d(7) by simp
      also have "\<dots> = (if c = Coluna row then Some v else lookup_column df c)"
        by (rule lookup_set_column [OF Cons.prems(2)])
      finally show ?thesis
        using None True lk by (auto simp: last_source_Cons v_def)
    qed
    show ?thesis using run d(2) p(1) d(3) d(4) tk st lu by auto
  qed
qed

lemma prefix_and_rest:
  assumes "take (length p) xs = p" and "distinct xs" and "set xs = set p \<union> S" and "S \<subseteq> {a}"
  shows "xs = p @ (if a \<in> S \<and> a \<notin> set p then [a] else [])"
proof -
  define rest where "rest = drop (length p) xs"
  have xs: "xs = p @ rest" using assms(1) by (metis append_take_drop_id rest_def)
  have d: "distinct rest" "set rest \<inter> set p = {}" using assms(2) xs by auto
  have s: "set rest \<subseteq> {a}" using assms(3,4) xs d(2) by auto
  have r: "rest = [] \<or> rest = [a]"
  proof (cases rest)
    case Nil
    then show ?thesis by simp
  next
    case (Cons x ys)
    then have "x = a" using s by simp
    moreover have "ys = []"
    proof (cases ys)
      case Nil
      then show ?thesis .
    next
      case (Cons y zs)
      then have "y = a" using s \<open>rest = x # ys\<close> by simp
      then show ?thesis using d(1) \<open>rest = x # ys\<close> \<open>x = a\<close> Cons by simp
    qed
    ultimately show ?thesis using Cons by simp
  qed
  show ?thesis
  proof (cases "a \<in> S \<and> a \<notin> set p")
    case True
    then have "a \<in> set rest" using assms(3) xs by auto
    then show ?thesis using r xs True by auto
  next
    case False
    have "rest = []"
    proof (rule ccontr)
      assume "rest \<noteq> []"
      then have ra: "rest = [a]" using r by simp
      then have "a \<notin> set p" using d(2) by auto
      moreover have "a \<in> set xs" using xs ra by simp
      ultimately have "a \<in> S" using assms(3) by auto
      then show False using False \<open>a \<notin> set p\<close> by simp
    qed
    then show ?thesis using xs False by simp
  qed
qed

lemma reindex_to_master_props:
  assumes "length (cells g0) = length (columns g0)" and "distinct (columns g0)"
    and "reindex_to_master g0 master = Inr g"
  shows "length (cells g) = length (columns g)" and "distinct (columns g)"
    and "columns g = [] \<or> index g = master \<or> index g = []"
    and "columns g = columns g0"
  using assms
  by (auto simp: reindex_to_master_def reindex_def df_empty_def split: if_splits)

lemma all_values_isl: "isl (all_values rs) \<longleftrightarrow> (\<exists>r\<in>set rs. isl r)"
  by (induction rs rule: all_values.induct) (auto split: sum.splits)

lemma all_values_projr:
  assumes "\<forall>r\<in>set rs. \<not> isl r"
  shows "all_values rs = Inr (map projr rs)"
  using assms by (induction rs rule: all_values.induct) simp_all

lemma all_values_length:
  assumes "all_values rs = Inr vs"
  shows "length vs = length rs"
  using all_values_Inr [OF assms] by simp

lemma clean_input_rows:
  assumes "clean_input raw = Inr df_input" and "r \<in> set df_input"
  shows "upper (Coluna r) = Coluna r" and "0 < Codigo_Clean r"
  using assms
  by (auto simp: clean_input_def Let_def upper_idem split: sum.splits)

lemma indices_of_config:
  assumes "all_values (map (\<lambda>r. column_index_from_string (Coluna r)) df_config) = Inr idxs"
  shows "length idxs = length df_config"
    and "\<forall>k<length df_config. 1 \<le> idxs ! k \<and> idxs ! k \<le> 18278
          \<and> column_letter (idxs ! k) = upper (Coluna (df_config ! k))"
proof -
  have m: "map (\<lambda>r. column_index_from_string (Coluna r)) df_config = map Inr idxs"
    by (rule all_values_Inr [OF assms])
  then show len: "length idxs = length df_config" by (metis length_map)
  show "\<forall>k<length df_config. 1 \<le> idxs ! k \<and> idxs ! k \<le> 18278
          \<and> column_letter (idxs ! k) = upper (Coluna (df_config ! k))"
  proof (intro allI impI)
    fix k assume k: "k < length df_config"
    have "map (\<lambda>r. column_index_from_string (Coluna r)) df_config ! k = map Inr idxs ! k"
      using m by simp
    then have "column_index_from_string (Coluna (df_config ! k)) = Inr (idxs ! k)"
      using k len by simp
    then show "1 \<le> idxs ! k \<and> idxs ! k \<le> 18278
          \<and> column_letter (idxs ! k) = upper (Coluna (df_config ! k))"
      by (rule column_index_Inr)
  qed
qed

lemma sheet_columns_range:
  assumes a: "all_values (map (\<lambda>r. column_index_from_string (Coluna r)) df_config) = Inr idxs"
    and ne: "df_config \<noteq> []"
  shows "sheet_columns df_config = Inr (map column_letter [2..<Max (set idxs) + 1])"
    and "1 \<le> Max (set idxs) \<and> Max (set idxs) \<le> 18278"
proof -
  note i = indices_of_config [OF a]
  have nz: "idxs \<noteq> []" using i(1) ne by auto
  then have "Max (set idxs) \<in> set idxs" by simp
  then obtain k where "k < length idxs" "idxs ! k = Max (set idxs)"
    by (metis in_set_conv_nth)
  then show r: "1 \<le> Max (set idxs) \<and> Max (set idxs) \<le> 18278"
    using i by metis
  then have "get_column_letter (Max (set idxs)) = Inr (column_letter (Max (set idxs)))"
    by (simp add: get_column_letter_def)
  moreover have "generate_column_range (column_letter (Max (set idxs)))
      = map column_letter [2..<Max (set idxs) + 1]"
    using r by (intro generate_column_range_letter) simp_all
  ultimately show "sheet_columns df_config = Inr (map column_letter [2..<Max (set idxs) + 1])"
    using a nz by (simp add: sheet_columns_def)
qed

lemma sheet_columns_skip:
  "isl (sheet_columns df_config)
    \<longleftrightarrow> df_config = [] \<or> (\<exists>r\<in>set df_config. isl (column_index_from_string (Coluna r)))"
proof (cases "\<exists>r\<in>set df_config. isl (column_index_from_string (Coluna r))")
  case True
  then have "isl (all_values (map (\<lambda>r. column_index_from_string (Coluna r)) df_config))"
    unfolding all_values_isl by auto
  then show ?thesis using True by (auto simp: sheet_columns_def split: sum.splits)
next
  case False
  then have "all_values (map (\<lambda>r. column_index_from_string (Coluna r)) df_config)
      = Inr (map projr (map (\<lambda>r. column_index_from_string (Coluna r)) df_config))"
    by (intro all_values_projr) auto
  then obtain idxs where
    a: "all_values (map (\<lambda>r. column_index_from_string (Coluna r)) df_config) = Inr idxs"
    by blast
  show ?thesis
  proof (cases "df_config = []")
    case True
    then show ?thesis by (simp add: sheet_columns_def)
  next
    case ne: False
    show ?thesis using sheet_columns_range(1) [OF a ne] False ne by simp
  qed
qed

lemma lookup_new_sheet:
  "lookup_column (new_sheet master target_cols) c
     = (if c \<in> set target_cols then Some (map (\<lambda>t. None) master) else None)"
  by (induction target_cols) (simp_all add: lookup_column_def new_sheet_def)

lemma target_cols_distinct: "distinct (map column_letter [2..<m + 1])"
proof -
  have "inj_on column_letter (set [2..<m + 1])"
    by (rule inj_onI) (rule column_letter_inj)
  then show ?thesis by (simp add: distinct_map)
qed

lemma build_sheet_effect:
  fixes g0 g :: "(int, 'v) frame"
  assumes g0: "length (cells g0) = length (columns g0)" "distinct (columns g0)"
    and rm: "reindex_to_master g0 master = Inr g"
    and up: "\<forall>r\<in>set (sheet_config df_input sheet). upper (Coluna r) = Coluna r"
    and a: "all_values (map (\<lambda>r. column_index_from_string (Coluna r)) (sheet_config df_input sheet))
        = Inr idxs"
    and ne: "sheet_config df_input sheet \<noteq> []"
  shows "\<exists>df_sheet. build_sheet df_input g master sheet = Inr (Some df_sheet)
     \<and> index df_sheet = master
     \<and> length (cells df_sheet) = length (columns df_sheet)
     \<and> columns df_sheet = map column_letter [2..<Max (set idxs) + 1]
         @ (if last_source g (sheet_config df_input sheet) ''A'' \<noteq> None then [''A''] else [])
     \<and> (\<forall>c. lookup_column df_sheet c =
          (case last_source g (sheet_config df_input sheet) c of
             None \<Rightarrow> if c \<in> set (map column_letter [2..<Max (set idxs) + 1])
                     then Some (map (\<lambda>t. None) master) else None
           | Some r \<Rightarrow> if index g = master then lookup_column g (Codigo_Clean r)
                       else Some (map (\<lambda>t. None) master)))"
proof -
  let ?cfg = "sheet_config df_input sheet"
  let ?m = "Max (set idxs)"
  let ?target = "map column_letter [2..<?m + 1]"
  let ?new = "new_sheet master ?target :: (string, 'v) frame"
  note sc = sheet_columns_range [OF a ne]
  note gp = reindex_to_master_props [OF g0 rm]
  have n1: "length (cells ?new) = length (columns ?new)" by (simp add: new_sheet_def)
  have n2: "distinct (columns ?new)" using target_cols_distinct [of ?m] by (simp add: new_sheet_def)
  have n3: "index ?new = master" by (simp add: new_sheet_def)
  have n4: "columns ?new = ?target" by (simp add: new_sheet_def)
  have al: "columns g = [] \<or> index g = index ?new \<or> index g = []"
    using gp(3) n3 by simp
  obtain df' where d: "data_mapping g ?cfg ?new = Inr df'"
    "index df' = index ?new" "length (cells df') = length (columns df')" "distinct (columns df')"
    "take (length (columns ?new)) (columns df') = columns ?new"
    "set (columns df') = set (columns ?new) \<union> {c. last_source g ?cfg c \<noteq> None}"
    "\<forall>c. lookup_column df' c =
        (case last_source g ?cfg c of
           None \<Rightarrow> lookup_column ?new c
         | Some r \<Rightarrow> if index g = index ?new then lookup_column g (Codigo_Clean r)
                     else Some (map (\<lambda>t. None) (index ?new)))"
    using data_mapping_effect [OF gp(1) gp(2) al n1 n2, of ?cfg] by blast
  have run: "build_sheet df_input g master sheet = Inr (Some df')"
    using sc(1) d(1) by (simp add: build_sheet_def)
  have A_not_target: "''A'' \<notin> set ?target"
  proof
    assume "''A'' \<in> set ?target"
    then obtain i where i: "2 \<le> i" "column_letter i = ''A''" by auto
    then have "column_letter i = column_letter 1" by (simp only: column_letter_examples(1))
    then have "i = 1" by (rule column_letter_inj)
    then show False using i(1) by simp
  qed
  define S where "S = {c. last_source g ?cfg c \<noteq> None} - set ?target"
  have S: "S \<subseteq> {''A''}"
  proof
    fix c assume c: "c \<in> S"
    then obtain r where "last_source g ?cfg c = Some r" by (auto simp: S_def)
    then have r: "r \<in> set ?cfg" "Coluna r = c" using last_source_Some by blast+
    then obtain k where k: "k < length ?cfg" "?cfg ! k = r" by (metis in_set_conv_nth)
    note i = indices_of_config [OF a]
    have ik: "1 \<le> idxs ! k" "column_letter (idxs ! k) = c"
      using i(2) k r up by auto
    have "idxs ! k \<in> set idxs" using k(1) i(1) by simp
    then have le: "idxs ! k \<le> ?m" by simp
    have "idxs ! k = 1"
    proof (rule ccontr)
      assume "idxs ! k \<noteq> 1"
      then have "2 \<le> idxs ! k" using ik(1) by linarith
      moreover have "idxs ! k < ?m + 1" using le by linarith
      ultimately have "idxs ! k \<in> set [2..<?m + 1]"
        by (metis atLeastLessThan_iff set_upt)
      then have "c \<in> set ?target" using ik(2) by (metis image_eqI set_map)
      then show False using c by (simp add: S_def)
    qed
    then have "column_letter 1 = c" using ik(2) by (simp only:)
    then have "c = ''A''" by (simp only: column_letter_examples(1))
    then show "c \<in> {''A''}" by simp
  qed
  have st: "set (columns df') = set ?target \<union> S"
    using d(6) n4 by (auto simp: S_def)
  have tk: "take (length ?target) (columns df') = ?target" using d(5) n4 by simp
  have "columns df' = ?target @ (if ''A'' \<in> S \<and> ''A'' \<notin> set ?target then [''A''] else [])"
    by (rule prefix_and_rest [OF tk d(4) st S])
  moreover have "''A'' \<in> S \<longleftrightarrow> last_source g ?cfg ''A'' \<noteq> None"
    using A_not_target by (simp add: S_def)
  ultimately have cols: "columns df' = ?target
      @ (if last_source g ?cfg ''A'' \<noteq> None then [''A''] else [])"
    using A_not_target by simp
  have lu: "\<forall>c. lookup_column df' c =
        (case last_source g ?cfg c of
           None \<Rightarrow> if c \<in> set ?target then Some (map (\<lambda>t. None) master) else None
         | Some r \<Rightarrow> if index g = master then lookup_column g (Codigo_Clean r)
                     else Some (map (\<lambda>t. None) master))"
    using d(7) unfolding n3 lookup_new_sheet by simp
  show ?thesis using run d(2) n3 d(3) cols lu by auto
qed

lemma sheet_config_nonempty:
  assumes "sheet \<in> set (map Aba df_input)"
  shows "sheet_config df_input sheet \<noteq> []"
  using assms by (auto simp: sheet_config_def filter_empty_conv)

text \<open>
  Claim C5, as amended. The configuration is the cleaned input, the consolidated table
  has as many columns as labels and no label twice, and it went through the reindexing of
  line 187. For a sheet of the configuration: if one of its column names is no column
  (A to ZZZ), the sheet is skipped. Otherwise the sheet is built without an exception, on
  the axis, and its columns are the letters from B to the highest configured column, in
  order (whatever the lowest configured column is), followed by A when a row of the sheet
  names A and its identifier is a column of the consolidated table. A column named by
  such a row holds the consolidated column of the last such row (missing values when the
  consolidated table has no rows); every other column of the range holds missing values
  only, so an identifier without a consolidated column fills nothing.
\<close>

theorem distributor_columns:
  fixes g0 g :: "(int, 'v) frame"
  assumes "clean_input raw = Inr df_input"
    and "length (cells g0) = length (columns g0)"
    and "distinct (columns g0)"
    and "reindex_to_master g0 master = Inr g"
    and "sheet \<in> set (map Aba df_input)"
  shows "if \<exists>r\<in>set (sheet_config df_input sheet). isl (column_index_from_string (Coluna r))
     then build_sheet df_input g master sheet = Inr None
     else (\<exists>idxs df_sheet.
        map (\<lambda>r. column_index_from_string (Coluna r)) (sheet_config df_input sheet) = map Inr idxs
        \<and> build_sheet df_input g master sheet = Inr (Some df_sheet)
        \<and> index df_sheet = master
        \<and> length (cells df_sheet) = length (columns df_sheet)
        \<and> columns df_sheet = map column_letter [2..<Max (set idxs) + 1]
            @ (if last_source g (sheet_config df_input sheet) ''A'' \<noteq> None then [''A''] else [])
        \<and> (\<forall>c. lookup_column df_sheet c =
             (case last_source g (sheet_config df_input sheet) c of
                None \<Rightarrow> if c \<in> set (map column_letter [2..<Max (set idxs) + 1])
                        then Some (map (\<lambda>t. None) master) else None
              | Some r \<Rightarrow> if index g = master then lookup_column g (Codigo_Clean r)
                          else Some (map (\<lambda>t. None) master))))"
proof (cases "\<exists>r\<in>set (sheet_config df_input sheet). isl (column_index_from_string (Coluna r))")
  case True
  then have "isl (sheet_columns (sheet_config df_input sheet))"
    unfolding sheet_columns_skip by simp
  then have "build_sheet df_input g master sheet = Inr None"
    by (cases "sheet_columns (sheet_config df_input sheet)") (simp_all add: build_sheet_def)
  then show ?thesis using True by simp
next
  case False
  let ?cfg = "sheet_config df_input sheet"
  have "all_values (map (\<lambda>r. column_index_from_string (Coluna r)) ?cfg)
      = Inr (map projr (map (\<lambda>r. column_index_from_string (Coluna r)) ?cfg))"
    using False by (intro all_values_projr) auto
  then obtain idxs where
    a: "all_values (map (\<lambda>r. column_index_from_string (Coluna r)) ?cfg) = Inr idxs"
    by blast
  have m: "map (\<lambda>r. column_index_from_string (Coluna r)) ?cfg = map Inr idxs"
    by (rule all_values_Inr [OF a])
  have up: "\<forall>r\<in>set ?cfg. upper (Coluna r) = Coluna r"
    using clean_input_rows(1) [OF assms(1)] by (simp add: sheet_config_def)
  have ne: "?cfg \<noteq> []" by (rule sheet_config_nonempty [OF assms(5)])
  obtain df_sheet where "build_sheet df_input g master sheet = Inr (Some df_sheet)
     \<and> index df_sheet = master
     \<and> length (cells df_sheet) = length (columns df_sheet)
     \<and> columns df_sheet = map column_letter [2..<Max (set idxs) + 1]
         @ (if last_source g ?cfg ''A'' \<noteq> None then [''A''] else [])
     \<and> (\<forall>c. lookup_column df_sheet c =
          (case last_source g ?cfg c of
             None \<Rightarrow> if c \<in> set (map column_letter [2..<Max (set idxs) + 1])
                     then Some (map (\<lambda>t. None) master) else None
           | Some r \<Rightarrow> if index g = master then lookup_column g (Codigo_Clean r)
                       else Some (map (\<lambda>t. None) master)))"
    using build_sheet_effect [OF assms(2,3,4) up a ne] by blast
  then show ?thesis using False m by auto
qed

lemma column_index_examples:
  "column_index_from_string ''A'' = Inr 1"
  "column_index_from_string ''D'' = Inr 4"
  "column_index_from_string ''F'' = Inr 6"
proof -
  have "column_index_from_string (column_letter 1) = Inr 1"
    by (rule column_index_of_letter) simp_all
  then show "column_index_from_string ''A'' = Inr 1"
    by (simp only: column_letter_examples)
  have "column_index_from_string (column_letter 4) = Inr 4"
    by (rule column_index_of_letter) simp_all
  then show "column_index_from_string ''D'' = Inr 4"
    by (simp only: column_letter_examples)
  have "column_index_from_string (column_letter 6) = Inr 6"
    by (rule column_index_of_letter) simp_all
  then show "column_index_from_string ''F'' = Inr 6"
    by (simp only: column_letter_examples)
qed

lemma column_index_5: "column_index_from_string ''5'' = Inl ValueError"
  by (rule column_index_not_letters) (simp add: upper_def upper_case_def)

lemma range_to_F: "generate_column_range ''F'' = [''B'', ''C'', ''D'', ''E'', ''F'']"
proof -
  have "generate_column_range (column_letter 6) = map column_letter [2..<6 + 1]"
    by (rule generate_column_range_letter) simp_all
  moreover have "[2..<6 + 1] = [2, 3, 4, 5, 6 :: nat]" by simp
  ultimately show ?thesis by (simp only: column_letter_examples list.map)
qed

lemma letters_D_to_F: "map column_letter [4..<6 + 1] = [''D'', ''E'', ''F'']"
proof -
  have "[4..<6 + 1] = [4, 5, 6 :: nat]" by simp
  then show ?thesis by (simp only: column_letter_examples list.map)
qed

lemma get_column_letter_6: "get_column_letter 6 = Inr ''F''"
  by (simp add: get_column_letter_def column_letter_examples)

lemma upper_letters: "char_of (68 :: nat) = CHR ''D''" "char_of (65 :: nat) = CHR ''A''"
  by code_simp+

lemma demo_clean: "clean_input demo_raw = Inr demo_config"
  by (simp add: clean_input_def demo_raw_def demo_config_def as_str_def strip_def is_space_def
      upper_def upper_letters Let_def)

lemma demo_axis: "master_index (2010, 3, 15) = [(2010, 1, 1), (2010, 2, 1), (2010, 3, 1)]"
  by (simp add: master_index_def date_range_MS_def START_DATE_def month_number_def month_start_def)

lemma demo_sheet_S:
  "build_sheet demo_config demo_aligned (master_index (2010, 3, 15)) ''S'' = Inr (Some demo_sheet)"
  unfolding demo_axis
  by (simp add: build_sheet_def sheet_config_def demo_config_def sheet_columns_def
      column_index_examples get_column_letter_6 range_to_F new_sheet_def select_column_def
      align_series_def set_column_def demo_aligned_def demo_sheet_def)


theorem distributor_columns_witness:
  "clean_input demo_raw = Inr demo_config
   \<and> length (cells demo_aligned) = length (columns demo_aligned)
   \<and> distinct (columns demo_aligned)
   \<and> reindex_to_master demo_aligned (master_index (2010, 3, 15)) = Inr demo_aligned
   \<and> ''S'' \<in> set (map Aba demo_config)
   \<and> ''T'' \<in> set (map Aba demo_config)
   \<and> build_sheet demo_config demo_aligned (master_index (2010, 3, 15)) ''S'' = Inr (Some demo_sheet)
   \<and> index demo_sheet = master_index (2010, 3, 15)
   \<and> columns demo_sheet = [''B'', ''C'', ''D'', ''E'', ''F'', ''A'']
   \<and> lookup_column demo_sheet ''D'' = lookup_column demo_aligned 1
   \<and> lookup_column demo_sheet ''D'' = Some [Some (Value 1), Some (Value 1), None]
   \<and> lookup_column demo_sheet ''F'' = Some [None, None, None]
   \<and> build_sheet demo_config demo_aligned (master_index (2010, 3, 15)) ''T'' = Inr None"
proof -
  have w: "length (cells demo_aligned) = length (columns demo_aligned)"
    by (simp add: demo_aligned_def)
  have d: "distinct (columns demo_aligned)" by (simp add: demo_aligned_def)
  have r: "reindex_to_master demo_aligned (master_index (2010, 3, 15)) = Inr demo_aligned"
    unfolding demo_axis by (simp add: reindex_to_master_def reindex_def demo_aligned_def)
  have s: "''S'' \<in> set (map Aba demo_config)" by (simp add: demo_config_def)
  have t: "''T'' \<in> set (map Aba demo_config)" by (simp add: demo_config_def)
  have vS: "\<not> (\<exists>r\<in>set (sheet_config demo_config ''S''). isl (column_index_from_string (Coluna r)))"
    by (simp add: sheet_config_def demo_config_def column_index_examples)
  have vT: "\<exists>r\<in>set (sheet_config demo_config ''T''). isl (column_index_from_string (Coluna r))"
    by (simp add: sheet_config_def demo_config_def column_index_5)
  obtain idxs df_sheet where
    b: "build_sheet demo_config demo_aligned (master_index (2010, 3, 15)) ''S'' = Inr (Some df_sheet)"
    and i: "index df_sheet = master_index (2010, 3, 15)"
    and l: "\<forall>c. lookup_column df_sheet c =
             (case last_source demo_aligned (sheet_config demo_config ''S'') c of
                None \<Rightarrow> if c \<in> set (map column_letter [2..<Max (set idxs) + 1])
                        then Some (map (\<lambda>t. None) (master_index (2010, 3, 15))) else None
              | Some r \<Rightarrow> if index demo_aligned = master_index (2010, 3, 15)
                          then lookup_column demo_aligned (Codigo_Clean r)
                          else Some (map (\<lambda>t. None) (master_index (2010, 3, 15))))"
    using distributor_columns [OF demo_clean w d r s, unfolded if_not_P [OF vS]] by blast
  have e: "df_sheet = demo_sheet" using b demo_sheet_S by simp
  have ls: "last_source demo_aligned (sheet_config demo_config ''S'') ''D''
      = Some \<lparr>Codigo_Clean = 1, Coluna = ''D'', Aba = ''S''\<rparr>"
    by (simp add: last_source_def sheet_config_def demo_config_def demo_aligned_def)
  have ia: "index demo_aligned = master_index (2010, 3, 15)"
    unfolding demo_axis by (simp add: demo_aligned_def)
  have "lookup_column df_sheet ''D'' = lookup_column demo_aligned 1"
    using l ls ia by simp
  then have lD: "lookup_column demo_sheet ''D'' = lookup_column demo_aligned 1"
    unfolding e .
  have vD: "lookup_column demo_sheet ''D'' = Some [Some (Value 1), Some (Value 1), None]"
    by (simp add: lookup_column_def demo_sheet_def)
  have vF: "lookup_column demo_sheet ''F'' = Some [None, None, None]"
    by (simp add: lookup_column_def demo_sheet_def)
  have c: "columns demo_sheet = [''B'', ''C'', ''D'', ''E'', ''F'', ''A'']"
    by (simp add: demo_sheet_def)
  have bT: "build_sheet demo_config demo_aligned (master_index (2010, 3, 15)) ''T'' = Inr None"
    using distributor_columns [OF demo_clean w d r t, unfolded if_P [OF vT]] .
  show ?thesis
    using i unfolding e by (intro conjI demo_clean w d r s t demo_sheet_S c lD vD vF bT)
qed

text \<open>
  The claim C5 as stated fails: the sheet S has the destination columns D and F, and the
  table built for it has the columns B to F, not D to F.
\<close>

theorem range_starts_at_B:
  "build_sheet columns_D_F demo_aligned (master_index (2010, 3, 15)) ''S'' = Inr (Some sheet_B_F)
   \<and> columns sheet_B_F = [''B'', ''C'', ''D'', ''E'', ''F'']
   \<and> lowest_to_highest (sheet_config columns_D_F ''S'') = Inr [''D'', ''E'', ''F'']
   \<and> columns sheet_B_F \<noteq> [''D'', ''E'', ''F'']"
proof -
  have "build_sheet columns_D_F demo_aligned (master_index (2010, 3, 15)) ''S''
      = Inr (Some sheet_B_F)"
    unfolding demo_axis
    by (simp add: build_sheet_def sheet_config_def columns_D_F_def sheet_columns_def
        column_index_examples get_column_letter_6 range_to_F new_sheet_def select_column_def
        align_series_def set_column_def demo_aligned_def sheet_B_F_def)
  moreover have "lowest_to_highest (sheet_config columns_D_F ''S'') = Inr [''D'', ''E'', ''F'']"
    using letters_D_to_F
    by (simp add: lowest_to_highest_def sheet_config_def columns_D_F_def column_index_examples)
  moreover have "columns sheet_B_F = [''B'', ''C'', ''D'', ''E'', ''F'']"
    by (simp add: sheet_B_F_def)
  ultimately show ?thesis by simp
qed

section \<open>The exit code of main\<close>



















end
